theory Spec2Isabelle
  imports Complex_Main
begin

section \<open>Text and regular-expression substitution\<close>

text \<open>
  Python strings are modelled as HOL strings whose characters stand for the code points
  0 to 255. The four characters that cannot be written inside a string literal are named.
\<close>

definition backslash :: char where
  "backslash = CHR 0x5C"

definition dquote :: char where
  "dquote = CHR 0x22"

definition squote :: char where
  "squote = CHR 0x27"

definition dollar :: char where
  "dollar = CHR 0x24"

text \<open>
  The class \<open>\s\<close> of a \<open>str\<close> pattern and the characters removed by \<open>str.strip()\<close> are
  the same set, the characters for which \<open>str.isspace()\<close> holds. Below code point 256
  these are tab, line feed, vertical tab, form feed, carriage return, the four separators
  0x1C to 0x1F, the space, NEL (0x85) and the no-break space (0xA0).
\<close>

definition is_space :: "char \<Rightarrow> bool" where
  "is_space c = (c \<in> set [CHR 0x09, CHR 0x0A, CHR 0x0B, CHR 0x0C, CHR 0x0D,
                           CHR 0x1C, CHR 0x1D, CHR 0x1E, CHR 0x1F, CHR 0x20,
                           CHR 0x85, CHR 0xA0])"

text \<open>The class \<open>[0-9A-Fa-f]\<close>.\<close>

definition is_hex :: "char \<Rightarrow> bool" where
  "is_hex c = (c \<in> set ''0123456789ABCDEFabcdef'')"

text \<open>
  A pattern is represented by its matcher: given the text that starts at the current
  position, the matcher returns the length of the match of the pattern there, or \<open>None\<close>
  when the pattern does not match at that position.
\<close>

type_synonym matcher = "string \<Rightarrow> nat option"

text \<open>
  \<open>re.sub(pattern, repl, text)\<close> scans the text from the left. At a position where the
  pattern matches, the replacement is emitted and the scan resumes after the match;
  elsewhere the character is copied. Every pattern of the program consumes at least one
  character, so empty matches do not arise.
\<close>

fun re_sub :: "matcher \<Rightarrow> string \<Rightarrow> string \<Rightarrow> string" where
  "re_sub m repl [] = []"
| "re_sub m repl (c # s) =
     (case m (c # s) of
        Some (Suc n) \<Rightarrow> repl @ re_sub m repl (drop n s)
      | _ \<Rightarrow> c # re_sub m repl s)"

text \<open>A pattern that is a fixed sequence of characters.\<close>

definition lit :: "string \<Rightarrow> matcher" where
  "lit p s = (if take (length p) s = p then Some (length p) else None)"

text \<open>
  The patterns \<open>\\u[0-9A-Fa-f]{4}\<close> and \<open>\\U[0-9A-Fa-f]{8}\<close>: a backslash, the letter,
  and exactly \<open>n\<close> hexadecimal digits.
\<close>

definition unicode_escape :: "char \<Rightarrow> nat \<Rightarrow> matcher" where
  "unicode_escape u n s =
     (case s of
        b # c # r \<Rightarrow>
          if b = backslash \<and> c = u \<and> n \<le> length r \<and> list_all is_hex (take n r)
          then Some (n + 2) else None
      | _ \<Rightarrow> None)"

text \<open>The pattern \<open>\s+\<close>: a longest non-empty run of whitespace.\<close>

definition ws_run :: matcher where
  "ws_run s = (case length (takeWhile is_space s) of 0 \<Rightarrow> None | Suc n \<Rightarrow> Some (Suc n))"

text \<open>
  The patterns \<open>,\s*]\<close> and \<open>,\s*}\<close>: a comma, the longest run of whitespace, and the
  closing character. Giving back whitespace cannot help the match, since the character
  then facing the closing character is itself whitespace.
\<close>

definition comma_ws :: "char \<Rightarrow> matcher" where
  "comma_ws close s =
     (case s of
        [] \<Rightarrow> None
      | c # r \<Rightarrow>
          if c = CHR '','' then
            (case dropWhile is_space r of
               [] \<Rightarrow> None
             | d # _ \<Rightarrow> if d = close then Some (length (takeWhile is_space r) + 2) else None)
          else None)"

definition py_strip :: "string \<Rightarrow> string" where
  "py_strip s = rev (dropWhile is_space (rev (dropWhile is_space s)))"

section \<open>Text Sanitizer\<close>

definition clean_escape_characters :: "string \<Rightarrow> string" where
  "clean_escape_characters text0 =
     (let text = re_sub (unicode_escape CHR ''u'' 4) [] text0;
          text = re_sub (unicode_escape CHR ''U'' 8) [] text;
          text = re_sub (lit [backslash, CHR ''n'']) '' '' text;
          text = re_sub (lit [backslash, CHR ''t'']) '' '' text;
          text = re_sub (lit [backslash, CHR ''r'']) '' '' text;
          text = re_sub (lit [backslash, dquote]) [] text;
          text = re_sub (lit [backslash, squote]) [squote] text;
          text = re_sub (lit [backslash, dollar]) [dollar] text;
          text = re_sub (lit [backslash]) [] text;
          text = re_sub (lit [dquote]) [] text
      in py_strip (re_sub ws_run '' '' text))"

section \<open>Batcher\<close>

text \<open>\<open>range(start, stop, step)\<close> for a step other than zero.\<close>

function py_range :: "int \<Rightarrow> int \<Rightarrow> int \<Rightarrow> int list" where
  "py_range i n k =
     (if (0 < k \<and> i < n) \<or> (k < 0 \<and> n < i) then i # py_range (i + k) n k else [])"
  by pat_completeness auto
termination
  by (relation "measure (\<lambda>(i, n, k). nat (if 0 < k then n - i else i - n))") auto

declare py_range.simps [simp del]

text \<open>
  The slice \<open>xs[i:j]\<close>: a negative bound counts from the end, and both bounds are clipped
  to the sequence.
\<close>

definition py_slice :: "'a list \<Rightarrow> int \<Rightarrow> int \<Rightarrow> 'a list" where
  "py_slice xs i j =
     (let n = int (length xs);
          lo = (if i < 0 then max 0 (i + n) else min i n);
          hi = (if j < 0 then max 0 (j + n) else min j n)
      in take (nat (hi - lo)) (drop (nat lo) xs))"

text \<open>\<open>range\<close> raises ValueError for a step of zero; the result is then \<open>None\<close>.\<close>

definition split_comments :: "'a list \<Rightarrow> int \<Rightarrow> 'a list list option" where
  "split_comments comments chunk_size =
     (if chunk_size = 0 then None
      else Some (map (\<lambda>i. py_slice comments i (i + chunk_size))
                     (py_range 0 (int (length comments)) chunk_size)))"

section \<open>JSON Repair\<close>

definition fix_trailing_commas :: "string \<Rightarrow> string" where
  "fix_trailing_commas json_str =
     (let json_str = re_sub (comma_ws CHR '']'') '']'' json_str;
          json_str = re_sub (comma_ws CHR ''}'') ''}'' json_str
      in json_str)"

section \<open>Parsed JSON values\<close>

text \<open>
  The values that \<open>json.load\<close> and \<open>json.loads\<close> return: \<open>None\<close>, a bool, an int, a float,
  a str, a list, or a dict with string keys, given by its items in insertion order. The
  representation of floats plays no role and is left open.
\<close>

datatype 'f json =
    JNull
  | JBool bool
  | JInt int
  | JFloat 'f
  | JStr string
  | JList "'f json list"
  | JObj "(string \<times> 'f json) list"

text \<open>
  Iterating over a value, as a \<open>for\<close> loop and \<open>list.extend\<close> do: a list yields its
  elements, a str its characters as strings of length one, a dict its keys. Any other
  value is not iterable and the attempt raises TypeError, here \<open>None\<close>.
\<close>

fun py_iter :: "'f json \<Rightarrow> 'f json list option" where
  "py_iter (JList xs) = Some xs"
| "py_iter (JStr s) = Some (map (\<lambda>c. JStr [c]) s)"
| "py_iter (JObj items) = Some (map (\<lambda>kv. JStr (fst kv)) items)"
| "py_iter _ = None"

fun is_list :: "'f json \<Rightarrow> bool" where
  "is_list (JList xs) = True"
| "is_list _ = False"

section \<open>Files, log and the state of a run\<close>

datatype level = INFO | ERROR

text \<open>
  The log records, one constructor for each message of the program, with the values the
  message is formatted from. Messages of level DEBUG are not emitted, the logger being
  configured at level INFO.
\<close>

datatype 'f message =
    ResultsFileCreated
  | FailedToLoadComments
  | LoadedComments "'f json"
  | TaskRawResult nat string
  | TaskOutput nat string
  | JsonDecodeErrorAfterValidation
  | JsonDecodeError
  | ProblematicResult string
  | ResultAppended
  | FailedToAppend
  | UnexpectedEntryType "'f json"
  | ResultsMerged
  | FailedToMerge
  | AnErrorOccurred

text \<open>
  The comments file is missing, or cannot be opened or parsed, or holds a JSON value.
\<close>

datatype 'a source = Missing | Unreadable | Readable 'a

text \<open>
  The state a run works on: the comments file, the file of raw results (the Result Store)
  and the file of final results, the log written so far, and the chunks handed to the
  agent so far. A result file either holds a JSON value or is \<open>None\<close>: it is missing, or
  what it holds is not JSON, as after a write that failed midway; opening and loading
  such a file raises.
\<close>

record 'f world =
  comments_file :: "'f json source"
  raw_results_file :: "'f json option"
  final_results_file :: "'f json option"
  logged :: "(level \<times> 'f message) list"
  invoked :: "'f json list"

definition log_to :: "(level \<times> 'f message) list \<Rightarrow> 'f world \<Rightarrow> 'f world" where
  "log_to entries w = w\<lparr>logged := logged w @ entries\<rparr>"

section \<open>Result Store\<close>

definition initialize_results_file :: "'f world \<Rightarrow> 'f world" where
  "initialize_results_file w =
     log_to [(INFO, ResultsFileCreated)] (w\<lparr>raw_results_file := Some (JList [])\<rparr>)"

text \<open>
  The outcomes of \<open>json.loads\<close>: a value, JSONDecodeError, or another exception, such as
  RecursionError on deeply nested text.
\<close>

datatype 'a loaded = Value 'a | DecodeError | Raised

text \<open>
  \<open>loads\<close> stands for \<open>json.loads\<close>, and \<open>dumpable\<close> tells whether \<open>json.dump\<close> can write a
  value; it cannot encode a string with a lone surrogate, and then raises after part of
  the text has been written over the file, which is left holding no JSON. Opening or
  loading an unreadable file raises, and so do \<open>append\<close> on a value that is not a list
  and an exception of \<open>json.loads\<close> other than JSONDecodeError; all of these are
  caught by the outer handler.
\<close>

definition append_result_to_json ::
  "(string \<Rightarrow> 'f json loaded) \<Rightarrow> ('f json \<Rightarrow> bool) \<Rightarrow> string \<Rightarrow> 'f world \<Rightarrow> 'f world" where
  "append_result_to_json loads dumpable result w =
     (case raw_results_file w of
        None \<Rightarrow> log_to [(ERROR, FailedToAppend)] w
      | Some results \<Rightarrow>
          (let fixed_result = fix_trailing_commas result in
           case loads fixed_result of
             DecodeError \<Rightarrow>
               log_to [(ERROR, JsonDecodeError), (ERROR, ProblematicResult result)] w
           | Raised \<Rightarrow> log_to [(ERROR, FailedToAppend)] w
           | Value json_result \<Rightarrow>
               (case results of
                  JList rs \<Rightarrow>
                    if dumpable (JList (rs @ [json_result]))
                    then log_to [(INFO, ResultAppended)]
                           (w\<lparr>raw_results_file := Some (JList (rs @ [json_result]))\<rparr>)
                    else log_to [(ERROR, FailedToAppend)] (w\<lparr>raw_results_file := None\<rparr>)
                | _ \<Rightarrow> log_to [(ERROR, FailedToAppend)] w)))"

section \<open>Merger\<close>

text \<open>The report under construction: a dict from theme to list, in insertion order.\<close>

type_synonym 'f report = "(string \<times> 'f json list) list"

definition initial_report :: "'f report" where
  "initial_report =
     [(''Requests'', []), (''Complaints'', []), (''Suggestions'', []),
      (''Praise'', []), (''Troubleshooting'', []), (''Other'', [])]"

text \<open>\<open>final_results[key].extend(values)\<close>, for a key of the report.\<close>

definition extend_key :: "string \<Rightarrow> 'f json list \<Rightarrow> 'f report \<Rightarrow> 'f report" where
  "extend_key key values final_results =
     map (\<lambda>(k, vs). if k = key then (k, vs @ values) else (k, vs)) final_results"

text \<open>The body of the inner loop, for one item of an entry.\<close>

definition merge_item :: "'f report \<Rightarrow> string \<times> 'f json \<Rightarrow> 'f report option" where
  "merge_item final_results item =
     (case item of (key, value) \<Rightarrow>
        if key \<in> fst ` set final_results \<and> is_list value
        then map_option (\<lambda>xs. extend_key key xs final_results) (py_iter value)
        else map_option (\<lambda>xs. extend_key ''Other'' xs final_results) (py_iter value))"

fun merge_items :: "(string \<times> 'f json) list \<Rightarrow> 'f report \<Rightarrow> 'f report option" where
  "merge_items [] final_results = Some final_results"
| "merge_items (item # items) final_results =
     (case merge_item final_results item of
        None \<Rightarrow> None
      | Some r \<Rightarrow> merge_items items r)"

text \<open>
  The outer loop. It returns the log records it wrote and the report, or \<open>None\<close> for the
  report when an exception ended the loop.
\<close>

fun merge_entries ::
  "'f json list \<Rightarrow> 'f report \<Rightarrow> (level \<times> 'f message) list \<times> 'f report option" where
  "merge_entries [] final_results = ([], Some final_results)"
| "merge_entries (entry # entries) final_results =
     (case entry of
        JObj items \<Rightarrow>
          (case merge_items items final_results of
             None \<Rightarrow> ([], None)
           | Some r \<Rightarrow> merge_entries entries r)
      | _ \<Rightarrow>
          (case merge_entries entries final_results of
             (lg, r) \<Rightarrow> ((ERROR, UnexpectedEntryType entry) # lg, r)))"

definition report_json :: "'f report \<Rightarrow> 'f json" where
  "report_json final_results = JObj (map (\<lambda>(k, vs). (k, JList vs)) final_results)"

text \<open>
  The report is written after the loop. It is made of parts of values read from the
  store, which \<open>json.dump\<close> wrote there, so it can be written as well.
\<close>

definition merge_results :: "'f world \<Rightarrow> 'f world" where
  "merge_results w =
     (case raw_results_file w of
        None \<Rightarrow> log_to [(ERROR, FailedToMerge)] w
      | Some all_results \<Rightarrow>
          (case py_iter all_results of
             None \<Rightarrow> log_to [(ERROR, FailedToMerge)] w
           | Some entries \<Rightarrow>
               (case merge_entries entries initial_report of
                  (lg, None) \<Rightarrow> log_to (lg @ [(ERROR, FailedToMerge)]) w
                | (lg, Some final_results) \<Rightarrow>
                    log_to (lg @ [(INFO, ResultsMerged)])
                      (w\<lparr>final_results_file := Some (report_json final_results)\<rparr>))))"

section \<open>Pipeline Driver\<close>

text \<open>
  \<open>split_comments\<close> on the value read from the comments file. A list and a str are cut
  into chunks. A dict has a length but cannot be sliced, and the other values have no
  length; the exception is \<open>None\<close>.
\<close>

definition split_value :: "'f json \<Rightarrow> int \<Rightarrow> 'f json list option" where
  "split_value comments chunk_size =
     (case comments of
        JList xs \<Rightarrow> map_option (map JList) (split_comments xs chunk_size)
      | JStr s \<Rightarrow> map_option (map JStr) (split_comments s chunk_size)
      | JObj items \<Rightarrow>
          (if chunk_size = 0 then None
           else if items = [] \<or> chunk_size < 0 then Some []
           else None)
      | _ \<Rightarrow> None)"

text \<open>The slice \<open>comments_data[:5]\<close> of the log message.\<close>

definition first_five :: "'f json \<Rightarrow> 'f json option" where
  "first_five comments_data =
     (case comments_data of
        JList xs \<Rightarrow> Some (JList (take 5 xs))
      | JStr s \<Rightarrow> Some (JStr (take 5 s))
      | _ \<Rightarrow> None)"

text \<open>
  The loop over the chunks. \<open>kickoff\<close> stands for building the agent, the task and the
  crew and running the crew on the chunk with the given index, converted to a string; it
  is \<open>None\<close> when any of this raises. The handler inside the loop catches
  JSONDecodeError only. The loop returns \<open>Inl\<close> with the state reached when an exception
  leaves it, and \<open>Inr\<close> when it runs to its end.
\<close>

fun process_chunks ::
  "(nat \<Rightarrow> 'f json \<Rightarrow> string option) \<Rightarrow> (string \<Rightarrow> 'f json loaded) \<Rightarrow> ('f json \<Rightarrow> bool) \<Rightarrow>
   nat \<Rightarrow> 'f json list \<Rightarrow> 'f world \<Rightarrow> 'f world + 'f world" where
  "process_chunks kickoff loads dumpable idx [] w = Inr w"
| "process_chunks kickoff loads dumpable idx (chunk # chunks) w =
     (let w = w\<lparr>invoked := invoked w @ [chunk]\<rparr> in
      case kickoff idx chunk of
        None \<Rightarrow> Inl w
      | Some result \<Rightarrow>
          (let fixed_result = fix_trailing_commas result;
               w = log_to [(INFO, TaskRawResult (idx + 1) fixed_result)] w
           in case loads fixed_result of
                Raised \<Rightarrow> Inl w
              | Value json_result \<Rightarrow>
                  process_chunks kickoff loads dumpable (idx + 1) chunks
                    (log_to [(INFO, TaskOutput (idx + 1) fixed_result)]
                       (append_result_to_json loads dumpable fixed_result w))
              | DecodeError \<Rightarrow>
                  process_chunks kickoff loads dumpable (idx + 1) chunks
                    (log_to [(INFO, TaskOutput (idx + 1) fixed_result)]
                       (log_to [(ERROR, JsonDecodeErrorAfterValidation),
                                (ERROR, ProblematicResult fixed_result)] w))))"

definition run ::
  "(nat \<Rightarrow> 'f json \<Rightarrow> string option) \<Rightarrow> (string \<Rightarrow> 'f json loaded) \<Rightarrow> ('f json \<Rightarrow> bool) \<Rightarrow>
   'f world \<Rightarrow> 'f world" where
  "run kickoff loads dumpable w =
     (case comments_file w of
        Missing \<Rightarrow> log_to [(ERROR, AnErrorOccurred)] w
      | Unreadable \<Rightarrow> log_to [(ERROR, AnErrorOccurred)] w
      | Readable comments_data \<Rightarrow>
          (case comments_data of
             JNull \<Rightarrow> log_to [(ERROR, FailedToLoadComments)] w
           | _ \<Rightarrow>
               (case split_value comments_data 20 of
                  None \<Rightarrow> log_to [(ERROR, AnErrorOccurred)] w
                | Some comments_chunks \<Rightarrow>
                    (case first_five comments_data of
                       None \<Rightarrow> log_to [(ERROR, AnErrorOccurred)] w
                     | Some shown \<Rightarrow>
                         (case process_chunks kickoff loads dumpable 0 comments_chunks
                                 (log_to [(INFO, LoadedComments shown)] w) of
                            Inl w' \<Rightarrow> log_to [(ERROR, AnErrorOccurred)] w'
                          | Inr w' \<Rightarrow> merge_results w')))))"

text \<open>
  The program: the results file is initialised with the empty list, which can always be
  written, when the analysis is set up; then the run.
\<close>

definition analyse ::
  "(nat \<Rightarrow> 'f json \<Rightarrow> string option) \<Rightarrow> (string \<Rightarrow> 'f json loaded) \<Rightarrow> ('f json \<Rightarrow> bool) \<Rightarrow>
   'f world \<Rightarrow> 'f world" where
  "analyse kickoff loads dumpable w = run kickoff loads dumpable (initialize_results_file w)"

section \<open>Reference definitions of the JSON Repair contract\<close>

text \<open>
  A comma is trailing when the text after it is whitespace, possibly none, followed by a
  closing \<open>]\<close> or \<open>}\<close>.
\<close>

definition trailing :: "string \<Rightarrow> bool" where
  "trailing s = (case dropWhile is_space s of [] \<Rightarrow> False | d # _ \<Rightarrow> d = CHR '']'' \<or> d = CHR ''}'')"

text \<open>The contract read literally: the trailing commas are deleted, nothing else.\<close>

fun remove_trailing_commas_only :: "string \<Rightarrow> string" where
  "remove_trailing_commas_only [] = []"
| "remove_trailing_commas_only (c # s) =
     (if c = CHR '','' \<and> trailing s then remove_trailing_commas_only s
      else c # remove_trailing_commas_only s)"

text \<open>
  The contract with the whitespace included: a trailing comma is deleted together with the
  whitespace between it and the closing character.
\<close>

function remove_trailing_commas :: "string \<Rightarrow> string" where
  "remove_trailing_commas [] = []"
| "remove_trailing_commas (c # s) =
     (if c = CHR '','' \<and> trailing s then remove_trailing_commas (dropWhile is_space s)
      else c # remove_trailing_commas s)"
  by pat_completeness auto
termination
  by (relation "measure length") (auto simp: length_dropWhile_le less_Suc_eq_le)

text \<open>Whether some comma of the text is trailing.\<close>

fun has_trailing_comma :: "string \<Rightarrow> bool" where
  "has_trailing_comma [] = False"
| "has_trailing_comma (c # s) = ((c = CHR '','' \<and> trailing s) \<or> has_trailing_comma s)"

section \<open>Reference definitions of the Text Sanitizer contract\<close>

text \<open>
  A text has its whitespace collapsed when every whitespace character in it is a space
  that is not followed by another whitespace character.
\<close>

fun collapsed :: "string \<Rightarrow> bool" where
  "collapsed [] = True"
| "collapsed [c] = (if is_space c then c = CHR '' '' else True)"
| "collapsed (c # d # s) = ((if is_space c then c = CHR '' '' \<and> \<not> is_space d else True) \<and> collapsed (d # s))"

text \<open>
  The contract read as a sequence of operations on the text. A unicode escape stands at
  the front of a text that begins with a backslash, the letter, and the given number of
  hexadecimal digits.
\<close>

definition escape_at :: "char \<Rightarrow> nat \<Rightarrow> string \<Rightarrow> bool" where
  "escape_at u n s =
     (take 2 s = [backslash, u] \<and> n \<le> length (drop 2 s) \<and> list_all is_hex (take n (drop 2 s)))"

text \<open>Removing the unicode escapes of a text, read from the left.\<close>

function delete_escapes :: "char \<Rightarrow> nat \<Rightarrow> string \<Rightarrow> string" where
  "delete_escapes u n s =
     (if s = [] then []
      else if escape_at u n s then delete_escapes u n (drop (n + 2) s)
      else hd s # delete_escapes u n (tl s))"
  by pat_completeness auto
termination
  by (relation "measure (\<lambda>(u, n, s). length s)") auto

declare delete_escapes.simps [simp del]

text \<open>
  Replacing every occurrence of a non-empty text \<open>old\<close> by \<open>new\<close>, read from the left
  and without overlap, as \<open>str.replace\<close> does.
\<close>

function replace_all :: "string \<Rightarrow> string \<Rightarrow> string \<Rightarrow> string" where
  "replace_all old new s =
     (if s = [] \<or> old = [] then s
      else if take (length old) s = old then new @ replace_all old new (drop (length old) s)
      else hd s # replace_all old new (tl s))"
  by pat_completeness auto
termination
  by (relation "measure (\<lambda>(old, new, s). length s)") auto

declare replace_all.simps [simp del]

text \<open>
  The words of a text are its maximal runs of characters that are not whitespace, as
  \<open>str.split()\<close> returns them; \<open>join_words\<close> puts one space between consecutive words.
\<close>

function split_words :: "string \<Rightarrow> string list" where
  "split_words s =
     (case dropWhile is_space s of
        [] \<Rightarrow> []
      | c # r \<Rightarrow>
          (c # takeWhile (\<lambda>x. \<not> is_space x) r) # split_words (dropWhile (\<lambda>x. \<not> is_space x) r))"
  by pat_completeness auto
termination
proof (relation "measure length")
  show "wf (measure length)" by simp
next
  fix s :: string and c r
  assume a: "dropWhile is_space s = c # r"
  have "length (dropWhile (\<lambda>x. \<not> is_space x) r) \<le> length r" by (rule length_dropWhile_le)
  moreover have "length (c # r) \<le> length s" using a length_dropWhile_le[of is_space s] by simp
  ultimately show "(dropWhile (\<lambda>x. \<not> is_space x) r, s) \<in> measure length" by simp
qed

declare split_words.simps [simp del]

fun join_words :: "string list \<Rightarrow> string" where
  "join_words [] = []"
| "join_words [w] = w"
| "join_words (w # v # ws) = w @ '' '' @ join_words (v # ws)"

text \<open>
  The sanitized text: the unicode escapes are removed (first the four-digit ones, then
  the eight-digit ones, each time in the text as it then stands), the escaped whitespace
  markers become spaces, an escaped double quote is removed, an escaped single quote and
  an escaped dollar sign lose their backslash, every backslash and every double quote
  still present is removed, and the words of the result are joined by single spaces.
\<close>

definition sanitized :: "string \<Rightarrow> string" where
  "sanitized s =
     join_words (split_words
       (filter (\<lambda>c. c \<noteq> dquote)
       (filter (\<lambda>c. c \<noteq> backslash)
       (replace_all [backslash, dollar] [dollar]
       (replace_all [backslash, squote] [squote]
       (replace_all [backslash, dquote] []
       (replace_all [backslash, CHR ''r''] '' ''
       (replace_all [backslash, CHR ''t''] '' ''
       (replace_all [backslash, CHR ''n''] '' ''
       (delete_escapes CHR ''U'' 8
       (delete_escapes CHR ''u'' 4 s)))))))))))"

section \<open>Reference definitions of the Merger contract\<close>

text \<open>The six keys of the report, in the order of the report.\<close>

definition themes :: "string list" where
  "themes = [''Requests'', ''Complaints'', ''Suggestions'', ''Praise'', ''Troubleshooting'', ''Other'']"

text \<open>
  The list an item goes to: its own key when the key is one of the five themes other than
  Other and the value is a list, Other otherwise.
\<close>

definition spec_target :: "string \<Rightarrow> 'f json \<Rightarrow> string" where
  "spec_target key value =
     (if key \<in> set [''Requests'', ''Complaints'', ''Suggestions'', ''Praise'', ''Troubleshooting'']
         \<and> is_list value
      then key else ''Other'')"

text \<open>The elements of a value: those of a list, the characters of a str, the keys of a dict.\<close>

definition elements :: "'f json \<Rightarrow> 'f json list" where
  "elements value = (case py_iter value of None \<Rightarrow> [] | Some xs \<Rightarrow> xs)"

definition items_of :: "'f json \<Rightarrow> (string \<times> 'f json) list" where
  "items_of entry = (case entry of JObj items \<Rightarrow> items | _ \<Rightarrow> [])"

text \<open>What a sequence of items appends to the list of a theme, in order.\<close>

definition contribution :: "string \<Rightarrow> (string \<times> 'f json) list \<Rightarrow> 'f json list" where
  "contribution theme items =
     concat (map (\<lambda>(key, value). if spec_target key value = theme then elements value else []) items)"

text \<open>
  The report of the contract: each theme with the concatenation, over the entries in store
  order and their items in order, of the elements of the items that go to the theme.
\<close>

definition spec_report :: "'f json list \<Rightarrow> 'f report" where
  "spec_report entries =
     map (\<lambda>theme. (theme, contribution theme (concat (map items_of entries)))) themes"


section \<open>Reference definitions of the Pipeline Driver contract\<close>




section \<open>Auxiliary functions of the proofs\<close>

text \<open>Cutting a list into consecutive pieces of \<open>k\<close> elements.\<close>

fun chop :: "nat \<Rightarrow> 'a list \<Rightarrow> 'a list list" where
  "chop k xs = (if k = 0 \<or> xs = [] then [] else take k xs # chop k (drop k xs))"

declare chop.simps [simp del]

text \<open>The first eight substitutions of the Text Sanitizer, those of the escape sequences.\<close>

definition escapes_replaced :: "string \<Rightarrow> string" where
  "escapes_replaced text0 =
     (let text = re_sub (unicode_escape CHR ''u'' 4) [] text0;
          text = re_sub (unicode_escape CHR ''U'' 8) [] text;
          text = re_sub (lit [backslash, CHR ''n'']) '' '' text;
          text = re_sub (lit [backslash, CHR ''t'']) '' '' text;
          text = re_sub (lit [backslash, CHR ''r'']) '' '' text;
          text = re_sub (lit [backslash, dquote]) [] text;
          text = re_sub (lit [backslash, squote]) [squote] text;
          text = re_sub (lit [backslash, dollar]) [dollar] text
      in text)"

text \<open>A matcher that only matches texts starting with the given character.\<close>

definition begins_with :: "char \<Rightarrow> matcher \<Rightarrow> bool" where
  "begins_with c m = (\<forall>t. m t \<noteq> None \<longrightarrow> t \<noteq> [] \<and> hd t = c)"

text \<open>\<open>str.rstrip()\<close>, the second half of \<open>str.strip()\<close>.\<close>

definition rstrip :: "string \<Rightarrow> string" where
  "rstrip s = rev (dropWhile is_space (rev s))"

text \<open>
  A pattern is cut by a text \<open>p\<close> when no match that starts before an occurrence of \<open>p\<close>
  extends into it, and a match never exceeds the text that is left.
\<close>

definition cut :: "matcher \<Rightarrow> string \<Rightarrow> bool" where
  "cut m p = ((\<forall>x y. x \<noteq> [] \<longrightarrow> m (x @ p @ y) = m x) \<and> (\<forall>x k. m x = Some k \<longrightarrow> k \<le> length x))"


section \<open>Properties of the Batcher\<close>

lemma py_slice_window:
  "0 \<le> i \<Longrightarrow> 0 < k \<Longrightarrow> py_slice xs i (i + k) = take (nat k) (drop (nat i) xs)"
  by (auto simp: py_slice_def Let_def min_def take_all_iff)

lemma split_chop_aux:
  "0 < k \<Longrightarrow> 0 \<le> i \<Longrightarrow>
   map (\<lambda>j. py_slice xs j (j + k)) (py_range i (int (length xs)) k) = chop (nat k) (drop (nat i) xs)"
proof (induction i "int (length xs)" k rule: py_range.induct)
  case (1 i k)
  show ?case
  proof (cases "i < int (length xs)")
    case True
    have d: "drop (nat k) (drop (nat i) xs) = drop (nat (i + k)) xs"
      using 1(2,3) by (simp add: nat_add_distrib add.commute)
    have "py_range i (int (length xs)) k = i # py_range (i + k) (int (length xs)) k"
      using True 1(2) by (subst py_range.simps) simp
    moreover have "chop (nat k) (drop (nat i) xs)
        = take (nat k) (drop (nat i) xs) # chop (nat k) (drop (nat (i + k)) xs)"
      using True 1(2,3) d by (subst chop.simps) auto
    ultimately show ?thesis
      using 1 True by (simp add: py_slice_window)
  next
    case False
    then show ?thesis using 1(2,3)
      by (subst py_range.simps, subst chop.simps) auto
  qed
qed

lemma concat_chop: "0 < k \<Longrightarrow> concat (chop k xs) = xs"
proof (induction k xs rule: chop.induct)
  case (1 k xs)
  then show ?case by (subst chop.simps) auto
qed

lemma ceil_div_small: "0 < (n::nat) \<Longrightarrow> n \<le> k \<Longrightarrow> (n + k - 1) div k = 1"
  by (rule div_nat_eqI) auto

lemma ceil_div_step: "0 < (k::nat) \<Longrightarrow> k < n \<Longrightarrow> Suc ((n - k + k - 1) div k) = (n + k - 1) div k"
proof -
  assume a: "0 < k" "k < n"
  have e1: "n + k - 1 = (n - 1) + k" using a by arith
  have e2: "n - k + k - 1 = n - 1" using a by arith
  have "k \<noteq> 0" using a by simp
  then have "(n - 1 + k) div k = (n - 1) div k + 1" by (rule div_add_self2)
  then show ?thesis by (simp only: e1 e2 Suc_eq_plus1)
qed

lemma length_chop: "0 < k \<Longrightarrow> length (chop k xs) = (length xs + k - 1) div k"
proof (induction k xs rule: chop.induct)
  case (1 k xs)
  show ?case
  proof (cases "xs = []")
    case True
    then show ?thesis using 1(2) by (subst chop.simps) simp
  next
    case False
    show ?thesis
    proof (cases "length xs \<le> k")
      case True
      then have "drop k xs = []" by simp
      then have "chop k (drop k xs) = []" by (subst chop.simps) simp
      then have "length (chop k xs) = 1" using False 1(2) by (subst chop.simps) simp
      then show ?thesis using ceil_div_small[of "length xs" k] False True by simp
    next
      case gt: False
      then have "length (chop k xs) = Suc ((length (drop k xs) + k - 1) div k)"
        using False 1 by (subst chop.simps) simp
      then show ?thesis using ceil_div_step[of k "length xs"] gt 1(2) by simp
    qed
  qed
qed


lemma butlast_chop: "0 < k \<Longrightarrow> c \<in> set (butlast (chop k xs)) \<Longrightarrow> length c = k"
proof (induction k xs rule: chop.induct)
  case (1 k xs)
  show ?case
  proof (cases "xs = []")
    case True
    then have "chop k xs = []" by (subst chop.simps) simp
    then show ?thesis using 1(3) by simp
  next
    case False
    then have e: "chop k xs = take k xs # chop k (drop k xs)" using 1(2) by (subst chop.simps) simp
    show ?thesis
    proof (cases "chop k (drop k xs) = []")
      case True
      then show ?thesis using 1(3) e by simp
    next
      case ne: False
      then have "drop k xs \<noteq> []" by (subst (asm) chop.simps) auto
      then have "k < length xs" by simp
      then have "length (take k xs) = k" by simp
      then show ?thesis using 1 e ne False by auto
    qed
  qed
qed

lemma last_chop:
  "0 < k \<Longrightarrow> chop k xs \<noteq> [] \<Longrightarrow> 0 < length (last (chop k xs)) \<and> length (last (chop k xs)) \<le> k"
proof (induction k xs rule: chop.induct)
  case (1 k xs)
  have ne: "xs \<noteq> []" using 1(3) by (subst (asm) chop.simps) auto
  then have e: "chop k xs = take k xs # chop k (drop k xs)" using 1(2) by (subst chop.simps) simp
  show ?case
  proof (cases "chop k (drop k xs) = []")
    case True
    then show ?thesis using e ne 1(2) by simp
  next
    case False
    then show ?thesis using 1 e ne by simp
  qed
qed

lemma ceiling_nat_div:
  assumes "0 < k"
  shows "\<lceil>real n / real k\<rceil> = int ((n + k - 1) div k)"
proof (rule ceiling_unique)
  let ?z = "(n + k - 1) div k"
  have a: "?z * k \<le> n + k - 1" by simp
  have b: "n + k - 1 < (?z + 1) * k"
    using assms dividend_less_div_times[of k "n + k - 1"] by (simp add: algebra_simps)
  have "n \<le> ?z * k" using b assms by (simp add: algebra_simps)
  then have "real n \<le> real (?z * k)" by (rule iffD2[OF of_nat_le_iff])
  then have "real n \<le> real ?z * real k" by simp
  then show "real n / real k \<le> of_int (int ?z)"
    using assms by (simp add: pos_divide_le_eq)
  have "?z * k < n + k" using a assms by arith
  then have "real (?z * k) < real (n + k)" by (rule iffD2[OF of_nat_less_iff])
  then have "(real ?z - 1) * real k < real n" by (simp add: algebra_simps)
  then show "of_int (int ?z) - 1 < real n / real k"
    using assms by (simp add: pos_less_divide_eq)
qed

text \<open>
  Claim C2. For a chunk size \<open>K > 0\<close> and a sequence of \<open>N\<close> comments, the Batcher returns
  \<open>ceil(N/K)\<close> chunks; every chunk but possibly the last has length \<open>K\<close>, the last one is
  not empty and not longer than \<open>K\<close>; the lengths add up to \<open>N\<close>, and the chunks
  concatenated in order give back the sequence.
\<close>

theorem split_comments_chunks:
  assumes "0 < chunk_size"
  shows "\<exists>chunks. split_comments comments chunk_size = Some chunks
           \<and> int (length chunks) = \<lceil>real (length comments) / real_of_int chunk_size\<rceil>
           \<and> (\<forall>c \<in> set (butlast chunks). int (length c) = chunk_size)
           \<and> (chunks \<noteq> [] \<longrightarrow> 0 < length (last chunks) \<and> int (length (last chunks)) \<le> chunk_size)
           \<and> sum_list (map length chunks) = length comments
           \<and> concat chunks = comments"
proof -
  let ?k = "nat chunk_size"
  have k: "0 < ?k" "int ?k = chunk_size" using assms by simp_all
  have s: "split_comments comments chunk_size = Some (chop ?k comments)"
    using assms split_chop_aux[of chunk_size 0 comments] by (simp add: split_comments_def)
  have c: "concat (chop ?k comments) = comments" using k(1) by (rule concat_chop)
  have "sum_list (map length (chop ?k comments)) = length (concat (chop ?k comments))"
    by (simp add: length_concat)
  then have l: "sum_list (map length (chop ?k comments)) = length comments" using c by simp
  have r: "real_of_int chunk_size = real ?k" using assms by simp
  have n: "int (length (chop ?k comments)) = \<lceil>real (length comments) / real_of_int chunk_size\<rceil>"
    unfolding r ceiling_nat_div[OF k(1)] length_chop[OF k(1)] ..
  have b: "\<forall>c \<in> set (butlast (chop ?k comments)). int (length c) = chunk_size"
  proof
    fix c assume "c \<in> set (butlast (chop ?k comments))"
    then have "length c = ?k" by (rule butlast_chop[OF k(1)])
    then show "int (length c) = chunk_size" using k(2) by simp
  qed
  have t: "chop ?k comments \<noteq> [] \<longrightarrow>
      0 < length (last (chop ?k comments)) \<and> int (length (last (chop ?k comments))) \<le> chunk_size"
  proof
    assume "chop ?k comments \<noteq> []"
    then have "0 < length (last (chop ?k comments)) \<and> length (last (chop ?k comments)) \<le> ?k"
      by (rule last_chop[OF k(1)])
    then show "0 < length (last (chop ?k comments)) \<and> int (length (last (chop ?k comments))) \<le> chunk_size"
      using k(2) by linarith
  qed
  show ?thesis using s c l n b t by blast
qed

theorem split_comments_chunks_witness:
  "(0::int) < 2
   \<and> split_comments [1, 2, 3, 4, 5 :: nat] 2 = Some [[1, 2], [3, 4], [5]]
   \<and> int (length [[1, 2], [3, 4], [5 :: nat]]) = \<lceil>real (length [1, 2, 3, 4, 5 :: nat]) / real_of_int 2\<rceil>
   \<and> concat [[1, 2], [3, 4], [5]] = [1, 2, 3, 4, 5 :: nat]"
proof -
  have h: "(0::int) < 2" by simp
  have e: "split_comments [1, 2, 3, 4, 5 :: nat] 2 = Some [[1, 2], [3, 4], [5]]" by code_simp
  from split_comments_chunks [OF h, of "[1, 2, 3, 4, 5 :: nat]"] obtain chunks where
    c: "split_comments [1, 2, 3, 4, 5 :: nat] 2 = Some chunks"
       "int (length chunks) = \<lceil>real (length [1, 2, 3, 4, 5 :: nat]) / real_of_int 2\<rceil>"
       "concat chunks = [1, 2, 3, 4, 5 :: nat]"
    by blast
  from c(1) e have "chunks = [[1, 2], [3, 4], [5]]" by simp
  with c(2,3) h e show ?thesis by blast
qed

section \<open>Properties of JSON Repair\<close>

declare re_sub.simps(2) [simp del]

lemma drop_suc_takeWhile: "drop (Suc (length (takeWhile P s))) s = tl (dropWhile P s)"
  by (simp add: dropWhile_eq_drop drop_Suc tl_drop)

lemma comma_ws_Cons:
  "comma_ws b (c # s) =
     (if c = CHR '','' \<and> (case dropWhile is_space s of [] \<Rightarrow> False | d # _ \<Rightarrow> d = b)
      then Some (Suc (Suc (length (takeWhile is_space s)))) else None)"
  by (cases "dropWhile is_space s") (simp_all add: comma_ws_def del: dropWhile_eq_Nil_conv)

lemma re_sub_comma_ws_Cons:
  "re_sub (comma_ws b) [b] (c # s) =
     (if c = CHR '','' \<and> (case dropWhile is_space s of [] \<Rightarrow> False | d # _ \<Rightarrow> d = b)
      then b # re_sub (comma_ws b) [b] (tl (dropWhile is_space s))
      else c # re_sub (comma_ws b) [b] s)"
  unfolding re_sub.simps comma_ws_Cons by (simp add: drop_suc_takeWhile)

lemma re_sub_comma_ws_other:
  "c \<noteq> CHR '','' \<Longrightarrow> re_sub (comma_ws b) [b] (c # s) = c # re_sub (comma_ws b) [b] s"
  unfolding re_sub_comma_ws_Cons by simp

lemma re_sub_comma_ws_prefix:
  "CHR '','' \<notin> set w \<Longrightarrow> re_sub (comma_ws b) [b] (w @ s) = w @ re_sub (comma_ws b) [b] s"
proof (induction w)
  case Nil
  show ?case by simp
next
  case (Cons a w)
  then have "a \<noteq> CHR '',''" by auto
  then have "re_sub (comma_ws b) [b] (a # (w @ s)) = a # re_sub (comma_ws b) [b] (w @ s)"
    by (rule re_sub_comma_ws_other)
  then show ?case using Cons by simp
qed

lemma space_not_comma: "is_space c \<Longrightarrow> c \<noteq> CHR '',''"
  by (auto simp: is_space_def)

lemma not_space_close: "\<not> is_space (CHR '']'')" "\<not> is_space (CHR ''}'')" "\<not> is_space (CHR '','')"
  by (simp_all add: is_space_def)

lemma takeWhile_space_no_comma: "CHR '','' \<notin> set (takeWhile is_space s)"
  using space_not_comma by (metis set_takeWhileD)

lemma split_ws: "s = takeWhile is_space s @ dropWhile is_space s"
  by simp


lemma dropWhile_ws_prefix: "dropWhile is_space (takeWhile is_space r @ x) = dropWhile is_space x"
  by (rule dropWhile_append2) (auto dest: set_takeWhileD)

lemma repair_passes_eq_remove:
  "re_sub (comma_ws CHR ''}'') ''}'' (re_sub (comma_ws CHR '']'') '']'' s) = remove_trailing_commas s"
proof (induction "length s" arbitrary: s rule: less_induct)
  case less
  let ?A = "re_sub (comma_ws CHR '']'') '']''"
  let ?B = "re_sub (comma_ws CHR ''}'') ''}''"
  show ?case
  proof (cases s)
    case Nil
    then show ?thesis by simp
  next
    case (Cons c r)
    have ih_r: "?B (?A r) = remove_trailing_commas r"
      using less Cons by simp
    show ?thesis
    proof (cases "c = CHR '',''")
      case False
      then have "?A s = c # ?A r" unfolding Cons by (rule re_sub_comma_ws_other)
      then have "?B (?A s) = c # ?B (?A r)" using False by (simp add: re_sub_comma_ws_other)
      then show ?thesis using False ih_r Cons by simp
    next
      case True
      let ?w = "takeWhile is_space r"
      have r: "r = ?w @ dropWhile is_space r" by simp
      have Ar: "?A r = ?w @ ?A (dropWhile is_space r)"
        using re_sub_comma_ws_prefix[OF takeWhile_space_no_comma, of "CHR '']''" r "dropWhile is_space r"]
        by simp
      show ?thesis
      proof (cases "dropWhile is_space r")
        case Nil
        then have nt: "\<not> trailing r" by (simp add: trailing_def del: dropWhile_eq_Nil_conv)
        have As: "?A s = c # ?A r"
          unfolding Cons re_sub_comma_ws_Cons using Nil by (simp del: dropWhile_eq_Nil_conv)
        have "dropWhile is_space (?A r) = []"
          using Ar Nil dropWhile_ws_prefix[of r "[]"] by (simp del: dropWhile_eq_Nil_conv)
        then have "?B (c # ?A r) = c # ?B (?A r)"
          unfolding re_sub_comma_ws_Cons by (simp del: dropWhile_eq_Nil_conv)
        then show ?thesis using As ih_r nt Cons by simp
      next
        case dt: (Cons d t)
        have nsd: "\<not> is_space d"
          using dt by (metis hd_dropWhile list.sel(1) list.distinct(1))
        have lt: "length t < length s"
        proof -
          have "length (dropWhile is_space r) \<le> length r" by (rule length_dropWhile_le)
          then show ?thesis using dt Cons by simp
        qed
        have ih_t: "?B (?A t) = remove_trailing_commas t" using less lt by simp
        consider (rb) "d = CHR '']''" | (cb) "d = CHR ''}''" | (other) "d \<noteq> CHR '']''" "d \<noteq> CHR ''}''"
          by blast
        then show ?thesis
        proof cases
          case rb
          have "?A s = CHR '']'' # ?A t"
            unfolding Cons re_sub_comma_ws_Cons using True dt rb by simp
          then have "?B (?A s) = CHR '']'' # ?B (?A t)"
            by (simp add: re_sub_comma_ws_other)
          moreover have "remove_trailing_commas s = CHR '']'' # remove_trailing_commas t"
            using Cons True dt rb by (simp add: trailing_def)
          ultimately show ?thesis using ih_t by simp
        next
          case cb
          have As: "?A s = c # ?A r"
            unfolding Cons re_sub_comma_ws_Cons using dt cb by simp
          have "?A (dropWhile is_space r) = CHR ''}'' # ?A t"
            unfolding dt cb by (simp add: re_sub_comma_ws_other)
          then have Ar': "?A r = ?w @ CHR ''}'' # ?A t" using Ar by simp
          have "dropWhile is_space (?A r) = CHR ''}'' # ?A t"
            unfolding Ar' using dropWhile_ws_prefix[of r "CHR ''}'' # ?A t"] not_space_close by simp
          then have "?B (c # ?A r) = CHR ''}'' # ?B (?A t)"
            unfolding re_sub_comma_ws_Cons using True by simp
          moreover have "remove_trailing_commas s = CHR ''}'' # remove_trailing_commas t"
            using Cons True dt cb by (simp add: trailing_def)
          ultimately show ?thesis using As ih_t by simp
        next
          case other
          have nt: "\<not> trailing r" using dt other by (simp add: trailing_def)
          have As: "?A s = c # ?A r"
            unfolding Cons re_sub_comma_ws_Cons using dt other by simp
          have "\<exists>e u. ?A (d # t) = e # u \<and> \<not> is_space e \<and> e \<noteq> CHR ''}''"
            unfolding re_sub_comma_ws_Cons using nsd other not_space_close by simp
          then obtain e u where eu: "?A (d # t) = e # u" "\<not> is_space e" "e \<noteq> CHR ''}''" by blast
          have "dropWhile is_space (?A r) = e # u"
            using Ar dt eu dropWhile_ws_prefix[of r "e # u"] by simp
          then have "?B (c # ?A r) = c # ?B (?A r)"
            unfolding re_sub_comma_ws_Cons using eu(3) by simp
          then show ?thesis using As ih_r nt Cons by simp
        qed
      qed
    qed
  qed
qed

lemma remove_trailing_commas_unchanged:
  "\<not> has_trailing_comma s \<Longrightarrow> remove_trailing_commas s = s"
  by (induction s) auto

text \<open>
  Claim C4, amended. JSON Repair deletes exactly the trailing commas, each together with the
  whitespace between the comma and the closing \<open>]\<close> or \<open>}\<close>, and changes nothing else.
  A text without a trailing comma is returned as it is, and the text of the example is
  repaired as the specification says.
\<close>

theorem fix_trailing_commas_contract:
  \<open>fix_trailing_commas s = remove_trailing_commas s
   \<and> (\<not> has_trailing_comma s \<longrightarrow> fix_trailing_commas s = s)
   \<and> fix_trailing_commas ''{"a": [1,2,],}'' = ''{"a": [1,2]}''\<close>
proof -
  have e: "fix_trailing_commas t = remove_trailing_commas t" for t
    by (simp add: fix_trailing_commas_def repair_passes_eq_remove)
  have x: \<open>remove_trailing_commas ''{"a": [1,2,],}'' = ''{"a": [1,2]}''\<close>
    by (simp add: trailing_def is_space_def)
  show ?thesis using e x remove_trailing_commas_unchanged by simp
qed

theorem fix_trailing_commas_contract_witness:
  "\<not> has_trailing_comma ''[1, 2]'' \<and> fix_trailing_commas ''[1, 2]'' = ''[1, 2]''"
  using fix_trailing_commas_contract [of "''[1, 2]''"]
  by (simp add: trailing_def is_space_def)

text \<open>
  The claim as stated fails where whitespace separates the comma from the closing bracket:
  the program deletes the whitespace as well.
\<close>

theorem fix_trailing_commas_deletes_whitespace:
  "fix_trailing_commas ''[1, ]'' = ''[1]'' \<and> remove_trailing_commas_only ''[1, ]'' = ''[1 ]''"
  by (simp add: fix_trailing_commas_def repair_passes_eq_remove trailing_def is_space_def)

section \<open>Properties of the Text Sanitizer\<close>

lemma re_sub_no_match: "m (c # s) = None \<Longrightarrow> re_sub m repl (c # s) = c # re_sub m repl s"
  by (simp add: re_sub.simps(2))

lemma re_sub_match:
  "m (c # s) = Some (Suc n) \<Longrightarrow> re_sub m repl (c # s) = repl @ re_sub m repl (drop n s)"
  by (simp add: re_sub.simps(2))

lemma begins_with_other: "begins_with c m \<Longrightarrow> d \<noteq> c \<Longrightarrow> m (d # s) = None"
  by (auto simp: begins_with_def)

lemma re_sub_prefix:
  "begins_with c m \<Longrightarrow> c \<notin> set a \<Longrightarrow> re_sub m repl (a @ s) = a @ re_sub m repl s"
proof (induction a)
  case Nil
  show ?case by simp
next
  case (Cons d a)
  then have "m (d # (a @ s)) = None" using begins_with_other[of c m d] by auto
  then have "re_sub m repl (d # (a @ s)) = d # re_sub m repl (a @ s)" by (rule re_sub_no_match)
  then show ?case using Cons by simp
qed

lemma re_sub_absent:
  "begins_with c m \<Longrightarrow> c \<notin> set s \<Longrightarrow> re_sub m repl s = s"
  using re_sub_prefix[of c m s repl "[]"] by simp

lemma set_re_sub: "set (re_sub m repl s) \<subseteq> set s \<union> set repl"
proof (induction "length s" arbitrary: s rule: less_induct)
  case less
  show ?case
  proof (cases s)
    case Nil
    then show ?thesis by simp
  next
    case (Cons c r)
    show ?thesis
    proof (cases "m (c # r)")
      case None
      then have "re_sub m repl s = c # re_sub m repl r" unfolding Cons by (rule re_sub_no_match)
      moreover have "set (re_sub m repl r) \<subseteq> set r \<union> set repl" using less Cons by simp
      ultimately show ?thesis using Cons by auto
    next
      case (Some k)
      show ?thesis
      proof (cases k)
        case 0
        then have "re_sub m repl s = c # re_sub m repl r"
          unfolding Cons using Some by (simp add: re_sub.simps(2))
        moreover have "set (re_sub m repl r) \<subseteq> set r \<union> set repl" using less Cons by simp
        ultimately show ?thesis using Cons by auto
      next
        case (Suc n)
        then have "re_sub m repl s = repl @ re_sub m repl (drop n r)"
          unfolding Cons using Some by (simp add: re_sub_match)
        moreover have "set (re_sub m repl (drop n r)) \<subseteq> set (drop n r) \<union> set repl"
          using less Cons by simp
        moreover have "set (drop n r) \<subseteq> set r" by (rule set_drop_subset)
        ultimately show ?thesis using Cons by auto
      qed
    qed
  qed
qed

lemma lit_single: "lit [c] (d # s) = (if d = c then Some 1 else None)"
  by (simp add: lit_def)

lemma re_sub_lit_single: "re_sub (lit [c]) [] s = filter (\<lambda>x. x \<noteq> c) s"
  by (induction s) (simp_all add: re_sub.simps(2) lit_single)

lemma begins_with_lit: "begins_with c (lit (c # p))"
  by (auto simp: begins_with_def lit_def split: if_splits) (metis hd_take list.sel(1) take_eq_Nil list.distinct(1) length_greater_0_conv zero_less_Suc length_Cons)

lemma begins_with_unicode_escape: "begins_with backslash (unicode_escape u n)"
  unfolding begins_with_def
proof (intro allI impI)
  fix t assume a: "unicode_escape u n t \<noteq> None"
  show "t \<noteq> [] \<and> hd t = backslash"
  proof (cases t)
    case Nil
    then show ?thesis using a by (simp add: unicode_escape_def)
  next
    case (Cons b r)
    then show ?thesis using a by (cases r) (simp_all add: unicode_escape_def split: if_splits)
  qed
qed


lemma collapsed_nonspace: "\<not> is_space c \<Longrightarrow> collapsed (c # x) = collapsed x"
  by (cases x) simp_all

lemma collapsed_space:
  "collapsed (CHR '' '' # x) = ((case x of [] \<Rightarrow> True | d # _ \<Rightarrow> \<not> is_space d) \<and> collapsed x)"
  by (cases x) (simp_all add: is_space_def)

lemma collapsed_tl: "collapsed (c # x) \<Longrightarrow> collapsed x"
  by (cases x) simp_all

lemma collapsed_append: "collapsed (a @ b) \<Longrightarrow> collapsed a \<and> collapsed b"
proof (induction a rule: collapsed.induct)
  case 1
  then show ?case by simp
next
  case (2 c)
  then show ?case by (cases b) (auto split: if_splits)
next
  case (3 c d s)
  then show ?case by (auto split: if_splits)
qed

lemma ws_run_Cons:
  "ws_run (c # s) = (if is_space c then Some (Suc (length (takeWhile is_space s))) else None)"
  by (simp add: ws_run_def)

lemma re_sub_ws_run_Cons:
  "re_sub ws_run '' '' (c # s) =
     (if is_space c then CHR '' '' # re_sub ws_run '' '' (dropWhile is_space s)
      else c # re_sub ws_run '' '' s)"
  by (simp add: re_sub.simps(2) ws_run_Cons dropWhile_eq_drop)

lemma collapsed_re_sub_ws_run: "collapsed (re_sub ws_run '' '' s)"
proof (induction "length s" arbitrary: s rule: less_induct)
  case less
  show ?case
  proof (cases s)
    case Nil
    then show ?thesis by simp
  next
    case (Cons c r)
    show ?thesis
    proof (cases "is_space c")
      case False
      then have "re_sub ws_run '' '' s = c # re_sub ws_run '' '' r"
        unfolding Cons by (simp add: re_sub_ws_run_Cons)
      moreover have "collapsed (re_sub ws_run '' '' r)" using less Cons by simp
      ultimately show ?thesis using False by (simp add: collapsed_nonspace)
    next
      case True
      let ?t = "dropWhile is_space r"
      have e: "re_sub ws_run '' '' s = CHR '' '' # re_sub ws_run '' '' ?t"
        unfolding Cons using True by (simp add: re_sub_ws_run_Cons)
      have "length ?t \<le> length r" by (rule length_dropWhile_le)
      then have ih: "collapsed (re_sub ws_run '' '' ?t)" using less Cons by simp
      have "case re_sub ws_run '' '' ?t of [] \<Rightarrow> True | d # _ \<Rightarrow> \<not> is_space d"
      proof (cases ?t)
        case Nil
        show ?thesis unfolding Nil by simp
      next
        case (Cons d u)
        then have "\<not> is_space d" by (metis hd_dropWhile list.sel(1) list.distinct(1))
        then show ?thesis unfolding Cons by (simp add: re_sub_ws_run_Cons)
      qed
      then show ?thesis unfolding e collapsed_space using ih by simp
    qed
  qed
qed

lemma re_sub_ws_run_collapsed: "collapsed u \<Longrightarrow> re_sub ws_run '' '' u = u"
proof (induction u rule: collapsed.induct)
  case 1
  show ?case by simp
next
  case (2 c)
  then show ?case by (simp add: re_sub_ws_run_Cons split: if_splits)
next
  case (3 c d s)
  then show ?case by (simp add: re_sub_ws_run_Cons split: if_splits)
qed

lemma py_strip_prefix: "\<exists>z. dropWhile is_space s = py_strip s @ z"
proof -
  let ?x = "dropWhile is_space s"
  have "rev (takeWhile is_space (rev ?x) @ dropWhile is_space (rev ?x)) = rev (rev ?x)"
    by (simp only: takeWhile_dropWhile_id)
  then have "rev (dropWhile is_space (rev ?x)) @ rev (takeWhile is_space (rev ?x)) = ?x"
    by (simp only: rev_append rev_rev_ident)
  then have "?x = py_strip s @ rev (takeWhile is_space (rev ?x))"
    by (simp only: py_strip_def)
  then show ?thesis by blast
qed

lemma collapsed_dropWhile: "collapsed s \<Longrightarrow> collapsed (dropWhile P s)"
  by (induction s) (auto dest: collapsed_tl)

lemma collapsed_py_strip: "collapsed s \<Longrightarrow> collapsed (py_strip s)"
proof -
  assume "collapsed s"
  then have c: "collapsed (dropWhile is_space s)" by (rule collapsed_dropWhile)
  obtain z where "dropWhile is_space s = py_strip s @ z" using py_strip_prefix by blast
  then show ?thesis using c collapsed_append by metis
qed

lemma py_strip_ends:
  assumes "py_strip s \<noteq> []"
  shows "\<not> is_space (hd (py_strip s)) \<and> \<not> is_space (last (py_strip s))"
proof -
  let ?x = "dropWhile is_space s"
  let ?y = "dropWhile is_space (rev ?x)"
  have y: "?y \<noteq> []" using assms by (simp add: py_strip_def del: dropWhile_eq_Nil_conv)
  then have l: "\<not> is_space (hd ?y)" by (rule hd_dropWhile)
  have "last (py_strip s) = hd ?y" using y by (simp add: py_strip_def last_rev del: dropWhile_eq_Nil_conv)
  then have 1: "\<not> is_space (last (py_strip s))" using l by simp
  obtain z where z: "?x = py_strip s @ z" using py_strip_prefix by blast
  then have "?x \<noteq> []" using assms by auto
  then have "\<not> is_space (hd ?x)" by (rule hd_dropWhile)
  moreover have "hd ?x = hd (py_strip s)" using z assms by (metis hd_append2)
  ultimately show ?thesis using 1 by simp
qed

lemma dropWhile_id_hd: "x \<noteq> [] \<Longrightarrow> \<not> P (hd x) \<Longrightarrow> dropWhile P x = x"
  by (cases x) simp_all

lemma py_strip_id:
  assumes "u \<noteq> [] \<longrightarrow> \<not> is_space (hd u) \<and> \<not> is_space (last u)"
  shows "py_strip u = u"
proof (cases u)
  case Nil
  then show ?thesis by (simp add: py_strip_def)
next
  case (Cons c r)
  then have h: "\<not> is_space (hd u)" "\<not> is_space (last u)" using assms by simp_all
  have 1: "dropWhile is_space u = u" using h(1) Cons by simp
  have "rev u \<noteq> []" using Cons by simp
  moreover have "hd (rev u) = last u" using Cons by (simp add: hd_rev)
  ultimately have "dropWhile is_space (rev u) = rev u"
    using h(2) dropWhile_id_hd[of "rev u" is_space] by simp
  then show ?thesis using 1 by (simp add: py_strip_def)
qed


lemma clean_eq:
  "clean_escape_characters s =
     py_strip (re_sub ws_run '' ''
       (filter (\<lambda>x. x \<noteq> dquote) (filter (\<lambda>x. x \<noteq> backslash) (escapes_replaced s))))"
  by (simp add: clean_escape_characters_def escapes_replaced_def Let_def re_sub_lit_single)

lemma set_py_strip: "set (py_strip s) \<subseteq> set s"
proof -
  obtain z where "dropWhile is_space s = py_strip s @ z" using py_strip_prefix by blast
  then have "set (py_strip s) \<subseteq> set (dropWhile is_space s)" by simp
  moreover have "set (dropWhile is_space s) \<subseteq> set s" by (auto dest: set_dropWhileD)
  ultimately show ?thesis by blast
qed

lemma clean_chars:
  "set (clean_escape_characters s) \<subseteq> (set (escapes_replaced s) - {backslash, dquote}) \<union> {CHR '' ''}"
proof -
  let ?f = "filter (\<lambda>x. x \<noteq> dquote) (filter (\<lambda>x. x \<noteq> backslash) (escapes_replaced s))"
  have "set (clean_escape_characters s) \<subseteq> set (re_sub ws_run '' '' ?f)"
    unfolding clean_eq by (rule set_py_strip)
  moreover have "set (re_sub ws_run '' '' ?f) \<subseteq> set ?f \<union> set '' ''" by (rule set_re_sub)
  ultimately show ?thesis by auto
qed

lemma clean_no_backslash: "backslash \<notin> set (clean_escape_characters s)"
  using clean_chars[of s] by (auto simp: backslash_def)

lemma clean_no_dquote: "dquote \<notin> set (clean_escape_characters s)"
  using clean_chars[of s] by (auto simp: dquote_def)

lemma clean_collapsed: "collapsed (clean_escape_characters s)"
  unfolding clean_eq by (rule collapsed_py_strip) (rule collapsed_re_sub_ws_run)

lemma clean_ends:
  "clean_escape_characters s \<noteq> [] \<Longrightarrow>
   \<not> is_space (hd (clean_escape_characters s)) \<and> \<not> is_space (last (clean_escape_characters s))"
  unfolding clean_eq by (rule py_strip_ends)

lemma escapes_replaced_absent: "backslash \<notin> set u \<Longrightarrow> escapes_replaced u = u"
  by (simp add: escapes_replaced_def Let_def re_sub_absent[of backslash]
      begins_with_lit begins_with_unicode_escape)

lemma clean_fixpoint:
  assumes "backslash \<notin> set u" and "dquote \<notin> set u" and "collapsed u"
    and "u \<noteq> [] \<longrightarrow> \<not> is_space (hd u) \<and> \<not> is_space (last u)"
  shows "clean_escape_characters u = u"
proof -
  have "filter (\<lambda>x. x \<noteq> dquote) (filter (\<lambda>x. x \<noteq> backslash) (escapes_replaced u)) = u"
    using assms(1,2) by (auto simp: escapes_replaced_absent filter_id_conv)
  then show ?thesis
    unfolding clean_eq using assms(3,4) by (simp add: re_sub_ws_run_collapsed py_strip_id)
qed

text \<open>
  Claim C7. The Text Sanitizer is idempotent: sanitizing a sanitized text changes nothing.
\<close>

theorem clean_twice: "clean_escape_characters (clean_escape_characters s) = clean_escape_characters s"
  using clean_no_backslash clean_no_dquote clean_collapsed clean_ends
  by (intro clean_fixpoint) auto

lemma escapes_replaced_prefix:
  "backslash \<notin> set a \<Longrightarrow> escapes_replaced (a @ x) = a @ escapes_replaced x"
  by (simp add: escapes_replaced_def Let_def re_sub_prefix[of backslash]
      begins_with_lit begins_with_unicode_escape)

lemma re_sub_skip:
  "begins_with backslash m \<Longrightarrow> c \<noteq> backslash \<Longrightarrow> re_sub m repl (c # x) = c # re_sub m repl x"
  using re_sub_prefix[of backslash m "[c]" repl x] by simp

lemma re_sub_escape_pair:
  "re_sub (lit [backslash, d]) repl (backslash # c # x) =
     (if c = d then repl @ re_sub (lit [backslash, d]) repl x
      else backslash # re_sub (lit [backslash, d]) repl (c # x))"
  by (simp add: re_sub.simps(2) lit_def)

lemma re_sub_unicode_escape:
  "re_sub (unicode_escape u n) repl (backslash # c # x) =
     (if c = u \<and> n \<le> length x \<and> list_all is_hex (take n x)
      then repl @ re_sub (unicode_escape u n) repl (drop n x)
      else backslash # re_sub (unicode_escape u n) repl (c # x))"
  by (simp add: re_sub.simps(2) unicode_escape_def)

lemma marker_chars:
  "CHR ''n'' \<noteq> backslash" "CHR ''t'' \<noteq> backslash" "CHR ''r'' \<noteq> backslash"
  "CHR ''U'' \<noteq> backslash" "CHR ''u'' \<noteq> backslash" "CHR '' '' \<noteq> backslash"
  "dquote \<noteq> backslash" "squote \<noteq> backslash" "dollar \<noteq> backslash"
  "dquote \<noteq> CHR ''u''" "dquote \<noteq> CHR ''U''" "dquote \<noteq> CHR ''n''" "dquote \<noteq> CHR ''t''"
  "dquote \<noteq> CHR ''r''"
  "squote \<noteq> CHR ''u''" "squote \<noteq> CHR ''U''" "squote \<noteq> CHR ''n''" "squote \<noteq> CHR ''t''"
  "squote \<noteq> CHR ''r''" "squote \<noteq> dquote"
  "dollar \<noteq> CHR ''u''" "dollar \<noteq> CHR ''U''" "dollar \<noteq> CHR ''n''" "dollar \<noteq> CHR ''t''"
  "dollar \<noteq> CHR ''r''" "dollar \<noteq> dquote" "dollar \<noteq> squote"
  by (simp_all add: backslash_def dquote_def squote_def dollar_def)

lemmas marker_simps = escapes_replaced_def Let_def re_sub_escape_pair re_sub_unicode_escape
  re_sub_skip begins_with_lit begins_with_unicode_escape marker_chars

lemma escapes_replaced_n:
  "escapes_replaced (backslash # CHR ''n'' # b) = CHR '' '' # escapes_replaced b"
  by (simp add: marker_simps)

lemma escapes_replaced_t:
  "escapes_replaced (backslash # CHR ''t'' # b) = CHR '' '' # escapes_replaced b"
  by (simp add: marker_simps)

lemma escapes_replaced_r:
  "escapes_replaced (backslash # CHR ''r'' # b) = CHR '' '' # escapes_replaced b"
  by (simp add: marker_simps)

lemma escapes_replaced_dquote:
  "escapes_replaced (backslash # dquote # b) = escapes_replaced b"
  by (simp add: marker_simps)

lemma escapes_replaced_squote:
  "escapes_replaced (backslash # squote # b) = squote # escapes_replaced b"
  by (simp add: marker_simps)

lemma hex_not_backslash: "is_hex c \<Longrightarrow> c \<noteq> backslash"
  by (auto simp: is_hex_def backslash_def)

lemma hex_no_backslash: "list_all is_hex h \<Longrightarrow> backslash \<notin> set h"
  using hex_not_backslash by (auto simp: list_all_iff)

lemma escapes_replaced_u:
  assumes "length h = 4" and "list_all is_hex h"
  shows "escapes_replaced (backslash # CHR ''u'' # h @ b) = escapes_replaced b"
proof -
  have "re_sub (unicode_escape CHR ''u'' 4) [] (backslash # CHR ''u'' # h @ b)
      = re_sub (unicode_escape CHR ''u'' 4) [] b"
    using assms by (simp add: re_sub_unicode_escape)
  then show ?thesis by (simp only: escapes_replaced_def Let_def)
qed

lemma escapes_replaced_U:
  assumes "length h = 8" and "list_all is_hex h"
  shows "escapes_replaced (backslash # CHR ''U'' # h @ b) = escapes_replaced b"
proof -
  let ?s1 = "re_sub (unicode_escape CHR ''u'' 4) []"
  have "?s1 (backslash # CHR ''U'' # h @ b) = backslash # ?s1 (CHR ''U'' # h @ b)"
    by (simp add: re_sub_unicode_escape)
  also have "?s1 (CHR ''U'' # h @ b) = CHR ''U'' # ?s1 (h @ b)"
    by (simp add: re_sub_skip begins_with_unicode_escape marker_chars)
  also have "?s1 (h @ b) = h @ ?s1 b"
    using assms(2) by (simp add: re_sub_prefix[of backslash] begins_with_unicode_escape hex_no_backslash)
  finally have 1: "?s1 (backslash # CHR ''U'' # h @ b) = backslash # CHR ''U'' # h @ ?s1 b" .
  have 2: "re_sub (unicode_escape CHR ''U'' 8) [] (backslash # CHR ''U'' # h @ ?s1 b)
      = re_sub (unicode_escape CHR ''U'' 8) [] (?s1 b)"
    using assms by (simp add: re_sub_unicode_escape)
  show ?thesis by (simp only: escapes_replaced_def Let_def 1 2)
qed


lemma clean_via_escapes:
  "escapes_replaced x = escapes_replaced y \<Longrightarrow> clean_escape_characters x = clean_escape_characters y"
  by (simp only: clean_eq)

lemma clean_after_prefix:
  assumes "backslash \<notin> set a" and "escapes_replaced x = y @ escapes_replaced z"
    and "backslash \<notin> set y"
  shows "clean_escape_characters (a @ x) = clean_escape_characters (a @ y @ z)"
proof -
  have "escapes_replaced (a @ x) = a @ y @ escapes_replaced z"
    using assms(1,2) by (simp add: escapes_replaced_prefix)
  moreover have "escapes_replaced (a @ y @ z) = a @ y @ escapes_replaced z"
    using assms(1,3) escapes_replaced_prefix[of "a @ y" z] by simp
  ultimately show ?thesis by (simp add: clean_via_escapes)
qed

lemma clean_dquote_removed:
  assumes "backslash \<notin> set a"
  shows "clean_escape_characters (a @ dquote # b) = clean_escape_characters (a @ b)"
proof -
  have "escapes_replaced (a @ dquote # b) = a @ dquote # escapes_replaced b"
    using assms escapes_replaced_prefix[of "a @ [dquote]" b]
    by (simp add: marker_chars marker_chars[symmetric])
  moreover have "escapes_replaced (a @ b) = a @ escapes_replaced b"
    using assms by (rule escapes_replaced_prefix)
  ultimately show ?thesis by (simp add: clean_eq)
qed

lemma py_strip_rstrip: "py_strip s = rstrip (dropWhile is_space s)"
  by (simp add: py_strip_def rstrip_def)

lemma rstrip_Nil_iff: "rstrip b = [] \<longleftrightarrow> (\<forall>x\<in>set b. is_space x)"
  by (simp add: rstrip_def)

lemma rstrip_append:
  "rstrip (a @ b) = (if \<forall>x\<in>set b. is_space x then rstrip a else a @ rstrip b)"
  by (simp add: rstrip_def dropWhile_append)

lemma rstrip_append_spaces: "\<forall>x\<in>set b. is_space x \<Longrightarrow> rstrip (a @ b) = rstrip a"
  by (simp add: rstrip_append)

lemma rstrip_append_word: "\<not> (\<forall>x\<in>set b. is_space x) \<Longrightarrow> rstrip (a @ b) = a @ rstrip b"
  by (auto simp: rstrip_append)

lemma rstrip_nonspace: "\<forall>x\<in>set a. \<not> is_space x \<Longrightarrow> rstrip a = a"
proof (cases a rule: rev_cases)
  case Nil
  then show ?thesis by (simp add: rstrip_def)
next
  case (snoc ys y)
  assume "\<forall>x\<in>set a. \<not> is_space x"
  then show ?thesis using snoc by (simp add: rstrip_def)
qed

lemma ws_nonspace_prefix:
  "\<forall>x\<in>set a. \<not> is_space x \<Longrightarrow> re_sub ws_run '' '' (a @ b) = a @ re_sub ws_run '' '' b"
  by (induction a) (simp_all add: re_sub_ws_run_Cons)

lemma ws_head:
  "s = [] \<or> \<not> is_space (hd s) \<Longrightarrow>
   re_sub ws_run '' '' s = [] \<or> \<not> is_space (hd (re_sub ws_run '' '' s))"
  by (cases s) (auto simp: re_sub_ws_run_Cons)

lemma dropWhile_head: "s = [] \<or> \<not> P (hd s) \<Longrightarrow> dropWhile P s = s"
  by (cases s) auto

lemma dropWhile_starts: "dropWhile P s = [] \<or> \<not> P (hd (dropWhile P s))"
  using hd_dropWhile[of P s] by blast

lemma ws_lstrip:
  "dropWhile is_space (re_sub ws_run '' '' s) = re_sub ws_run '' '' (dropWhile is_space s)"
proof (cases s)
  case Nil
  then show ?thesis by simp
next
  case (Cons c r)
  show ?thesis
  proof (cases "is_space c")
    case True
    let ?t = "dropWhile is_space r"
    have "re_sub ws_run '' '' s = CHR '' '' # re_sub ws_run '' '' ?t"
      using True Cons by (simp add: re_sub_ws_run_Cons)
    then have "dropWhile is_space (re_sub ws_run '' '' s) = dropWhile is_space (re_sub ws_run '' '' ?t)"
      by (simp add: is_space_def)
    also have "\<dots> = re_sub ws_run '' '' ?t"
      using ws_head[OF dropWhile_starts[of is_space r]] by (rule dropWhile_head)
    finally show ?thesis using True Cons by simp
  next
    case False
    then have "re_sub ws_run '' '' s = c # re_sub ws_run '' '' r"
      using Cons by (simp add: re_sub_ws_run_Cons)
    then show ?thesis using False Cons by simp
  qed
qed

lemma split_words_Nil: "dropWhile is_space s = [] \<Longrightarrow> split_words s = []"
  by (subst split_words.simps) (simp del: dropWhile_eq_Nil_conv)

lemma split_words_Cons:
  "dropWhile is_space s = c # r \<Longrightarrow>
   split_words s = (c # takeWhile (\<lambda>x. \<not> is_space x) r) # split_words (dropWhile (\<lambda>x. \<not> is_space x) r)"
  by (subst split_words.simps) simp

lemma split_words_lstrip: "split_words (dropWhile is_space s) = split_words s"
proof (cases "dropWhile is_space s")
  case Nil
  then show ?thesis by (simp add: split_words_Nil del: dropWhile_eq_Nil_conv)
next
  case (Cons c r)
  have "dropWhile is_space (dropWhile is_space s) = c # r"
    using Cons dropWhile_starts[of is_space s] by (simp add: dropWhile_head)
  then show ?thesis using Cons by (simp add: split_words_Cons)
qed

lemma join_words_Cons:
  "join_words (w # ws) = (if ws = [] then w else w @ '' '' @ join_words ws)"
  by (cases ws) simp_all

lemma split_words_nonempty: "w \<in> set (split_words s) \<Longrightarrow> w \<noteq> []"
proof (induction "length s" arbitrary: s rule: less_induct)
  case less
  show ?case
  proof (cases "dropWhile is_space s")
    case Nil
    then show ?thesis using less.prems by (simp add: split_words_Nil del: dropWhile_eq_Nil_conv)
  next
    case (Cons c r)
    let ?rest = "dropWhile (\<lambda>x. \<not> is_space x) r"
    have "length ?rest \<le> length r" by (rule length_dropWhile_le)
    moreover have "length (c # r) \<le> length s" using Cons length_dropWhile_le[of is_space s] by simp
    ultimately have l: "length ?rest < length s" by simp
    have "w = c # takeWhile (\<lambda>x. \<not> is_space x) r \<or> w \<in> set (split_words ?rest)"
      using less.prems Cons by (simp add: split_words_Cons)
    then show ?thesis using less.hyps[OF l] by auto
  qed
qed

lemma join_words_Nil_iff: "join_words (split_words s) = [] \<longleftrightarrow> split_words s = []"
proof (cases "split_words s")
  case Nil
  then show ?thesis by simp
next
  case (Cons w ws)
  then have "w \<noteq> []" using split_words_nonempty[of w s] by simp
  then show ?thesis using Cons by (simp add: join_words_Cons)
qed

lemma ws_words_lstripped:
  "s = [] \<or> \<not> is_space (hd s) \<Longrightarrow> rstrip (re_sub ws_run '' '' s) = join_words (split_words s)"
proof (induction "length s" arbitrary: s rule: less_induct)
  case less
  show ?case
  proof (cases s)
    case Nil
    then show ?thesis by (simp add: rstrip_def split_words_Nil)
  next
    case (Cons c r)
    then have c: "\<not> is_space c" using less.prems by simp
    let ?word = "c # takeWhile (\<lambda>x. \<not> is_space x) r"
    let ?rest = "dropWhile (\<lambda>x. \<not> is_space x) r"
    have dw: "dropWhile is_space s = c # r" using c Cons by simp
    have sw: "split_words s = ?word # split_words ?rest" using dw by (rule split_words_Cons)
    have s: "s = ?word @ ?rest" using Cons by simp
    have word: "\<forall>x\<in>set ?word. \<not> is_space x" using c by (auto dest: set_takeWhileD)
    have C: "re_sub ws_run '' '' s = ?word @ re_sub ws_run '' '' ?rest"
      using ws_nonspace_prefix[OF word, of ?rest] s by simp
    show ?thesis
    proof (cases ?rest)
      case Nil
      have 1: "re_sub ws_run '' '' s = ?word" unfolding C Nil by simp
      have 2: "split_words s = [?word]" unfolding sw Nil by (simp add: split_words_Nil)
      show ?thesis unfolding 1 2 using rstrip_nonspace[OF word] by simp
    next
      case rest: (Cons d rest')
      have d: "is_space d" using hd_dropWhile[of "\<lambda>x. \<not> is_space x" r] rest by simp
      let ?t = "dropWhile is_space rest'"
      have t: "?t = [] \<or> \<not> is_space (hd ?t)" by (rule dropWhile_starts)
      have "length ?rest \<le> length r" by (rule length_dropWhile_le)
      moreover have "length ?t \<le> length rest'" by (rule length_dropWhile_le)
      ultimately have l: "length ?t < length s" using rest Cons by simp
      have ih: "rstrip (re_sub ws_run '' '' ?t) = join_words (split_words ?t)"
        using less.hyps[OF l t] .
      have "dropWhile is_space ?rest = ?t" using rest d by simp
      then have "split_words ?t = split_words ?rest"
        using split_words_lstrip[of ?rest] by simp
      then have ih': "rstrip (re_sub ws_run '' '' ?t) = join_words (split_words ?rest)"
        using ih by simp
      have Cr: "re_sub ws_run '' '' ?rest = CHR '' '' # re_sub ws_run '' '' ?t"
        using rest d by (simp add: re_sub_ws_run_Cons)
      have sp: "is_space CHR '' ''" by (simp add: is_space_def)
      show ?thesis
      proof (cases "split_words ?rest = []")
        case True
        then have "rstrip (re_sub ws_run '' '' ?t) = []" using ih' by simp
        then have "\<forall>x\<in>set (re_sub ws_run '' '' ?t). is_space x" by (simp add: rstrip_Nil_iff)
        then have "\<forall>x\<in>set (re_sub ws_run '' '' ?rest). is_space x" using Cr sp by simp
        then have "rstrip (re_sub ws_run '' '' s) = rstrip ?word"
          unfolding C by (rule rstrip_append_spaces)
        then show ?thesis using True sw word by (simp add: rstrip_nonspace)
      next
        case False
        then have ne: "rstrip (re_sub ws_run '' '' ?t) \<noteq> []"
          using ih' join_words_Nil_iff[of ?rest] by simp
        then have n1: "\<not> (\<forall>x\<in>set (re_sub ws_run '' '' ?t). is_space x)"
          by (simp add: rstrip_Nil_iff)
        then have n2: "\<not> (\<forall>x\<in>set (re_sub ws_run '' '' ?rest). is_space x)" using Cr by simp
        have "rstrip (re_sub ws_run '' '' ?rest) = '' '' @ rstrip (re_sub ws_run '' '' ?t)"
          using rstrip_append[of "'' ''" "re_sub ws_run '' '' ?t"] n1 Cr by simp
        moreover have "rstrip (re_sub ws_run '' '' s) = ?word @ rstrip (re_sub ws_run '' '' ?rest)"
          unfolding C using n2 by (rule rstrip_append_word)
        ultimately have "rstrip (re_sub ws_run '' '' s) = ?word @ '' '' @ join_words (split_words ?rest)"
          using ih' by simp
        then show ?thesis using False sw by (simp add: join_words_Cons)
      qed
    qed
  qed
qed

lemma ws_words: "py_strip (re_sub ws_run '' '' s) = join_words (split_words s)"
proof -
  have "py_strip (re_sub ws_run '' '' s) = rstrip (re_sub ws_run '' '' (dropWhile is_space s))"
    by (simp only: py_strip_rstrip ws_lstrip)
  also have "\<dots> = join_words (split_words (dropWhile is_space s))"
    using dropWhile_starts[of is_space s] by (rule ws_words_lstripped)
  finally show ?thesis by (simp only: split_words_lstrip)
qed

lemma re_sub_lit: "old \<noteq> [] \<Longrightarrow> re_sub (lit old) new s = replace_all old new s"
proof (induction "length s" arbitrary: s rule: less_induct)
  case less
  obtain o1 k where old: "old = o1 # k" using less.prems by (cases old) auto
  show ?case
  proof (cases s)
    case Nil
    then show ?thesis by (simp add: replace_all.simps)
  next
    case (Cons c r)
    show ?thesis
    proof (cases "take (length old) s = old")
      case True
      then have "lit old (c # r) = Some (Suc (length k))" using Cons old by (simp add: lit_def)
      then have 1: "re_sub (lit old) new s = new @ re_sub (lit old) new (drop (length k) r)"
        unfolding Cons by (rule re_sub_match)
      have "length (drop (length k) r) < length s" using Cons by simp
      then have 2: "re_sub (lit old) new (drop (length k) r) = replace_all old new (drop (length k) r)"
        using less.hyps less.prems by blast
      have "replace_all old new s = new @ replace_all old new (drop (length old) s)"
        using True Cons less.prems by (subst replace_all.simps) simp
      then show ?thesis using 1 2 old Cons by simp
    next
      case False
      then have "lit old (c # r) = None" using Cons by (simp add: lit_def)
      then have 1: "re_sub (lit old) new s = c # re_sub (lit old) new r"
        unfolding Cons by (rule re_sub_no_match)
      have 2: "re_sub (lit old) new r = replace_all old new r"
        using less.hyps[of r] less.prems Cons by simp
      have "replace_all old new s = c # replace_all old new r"
        using False Cons less.prems by (subst replace_all.simps) simp
      then show ?thesis using 1 2 by simp
    qed
  qed
qed

lemma unicode_escape_at:
  "unicode_escape u n s = (if escape_at u n s then Some (n + 2) else None)"
proof (cases s)
  case Nil
  then show ?thesis by (simp add: unicode_escape_def escape_at_def)
next
  case (Cons b r)
  then show ?thesis by (cases r) (auto simp: unicode_escape_def escape_at_def)
qed

lemma re_sub_unicode: "re_sub (unicode_escape u n) [] s = delete_escapes u n s"
proof (induction "length s" arbitrary: s rule: less_induct)
  case less
  show ?case
  proof (cases s)
    case Nil
    then show ?thesis by (simp add: delete_escapes.simps)
  next
    case (Cons c r)
    show ?thesis
    proof (cases "escape_at u n s")
      case True
      then have "unicode_escape u n (c # r) = Some (Suc (n + 1))"
        using Cons by (simp add: unicode_escape_at)
      then have 1: "re_sub (unicode_escape u n) [] s = [] @ re_sub (unicode_escape u n) [] (drop (n + 1) r)"
        unfolding Cons by (rule re_sub_match)
      have "length (drop (n + 1) r) < length s" using Cons by simp
      then have 2: "re_sub (unicode_escape u n) [] (drop (n + 1) r) = delete_escapes u n (drop (n + 1) r)"
        using less.hyps by blast
      have "delete_escapes u n s = delete_escapes u n (drop (n + 2) s)"
        using True Cons by (subst delete_escapes.simps) simp
      then show ?thesis using 1 2 Cons by simp
    next
      case False
      then have "unicode_escape u n (c # r) = None" using Cons by (simp add: unicode_escape_at)
      then have 1: "re_sub (unicode_escape u n) [] s = c # re_sub (unicode_escape u n) [] r"
        unfolding Cons by (rule re_sub_no_match)
      have 2: "re_sub (unicode_escape u n) [] r = delete_escapes u n r"
        using less.hyps[of r] Cons by simp
      have "delete_escapes u n s = c # delete_escapes u n r"
        using False Cons by (subst delete_escapes.simps) simp
      then show ?thesis using 1 2 by simp
    qed
  qed
qed

lemma clean_sanitized: "clean_escape_characters s = sanitized s"
  by (simp add: clean_escape_characters_def sanitized_def Let_def re_sub_lit re_sub_unicode
      re_sub_lit_single ws_words)

lemma re_sub_cut:
  assumes "cut m p"
  shows "re_sub m repl (a @ p @ b) = re_sub m repl a @ re_sub m repl (p @ b)"
proof (induction "length a" arbitrary: a rule: less_induct)
  case less
  show ?case
  proof (cases a)
    case Nil
    then show ?thesis by simp
  next
    case (Cons d a')
    have m: "m (d # a' @ p @ b) = m (d # a')"
      using assms unfolding cut_def by (metis append_Cons list.distinct(1))
    have ih: "re_sub m repl (a' @ p @ b) = re_sub m repl a' @ re_sub m repl (p @ b)"
      using less.hyps[of a'] Cons by simp
    show ?thesis
    proof (cases "m (d # a')")
      case None
      then have "re_sub m repl (d # a' @ p @ b) = d # re_sub m repl (a' @ p @ b)"
        using m by (simp add: re_sub_no_match)
      moreover have "re_sub m repl (d # a') = d # re_sub m repl a'"
        using None by (rule re_sub_no_match)
      ultimately show ?thesis using ih Cons by simp
    next
      case (Some k)
      show ?thesis
      proof (cases k)
        case 0
        then have "re_sub m repl (d # a' @ p @ b) = d # re_sub m repl (a' @ p @ b)"
          using m Some by (simp add: re_sub.simps(2))
        moreover have "re_sub m repl (d # a') = d # re_sub m repl a'"
          using Some 0 by (simp add: re_sub.simps(2))
        ultimately show ?thesis using ih Cons by simp
      next
        case (Suc n)
        have "k \<le> length (d # a')" using assms Some unfolding cut_def by blast
        then have n: "n \<le> length a'" using Suc by simp
        have 1: "re_sub m repl (d # a' @ p @ b) = repl @ re_sub m repl (drop n (a' @ p @ b))"
          using m Some Suc by (simp add: re_sub_match)
        have 2: "re_sub m repl (d # a') = repl @ re_sub m repl (drop n a')"
          using Some Suc by (simp add: re_sub_match)
        have "length (drop n a') < length a" using Cons by simp
        then have 3: "re_sub m repl (drop n a' @ p @ b) = re_sub m repl (drop n a') @ re_sub m repl (p @ b)"
          using less.hyps by blast
        have "drop n (a' @ p @ b) = drop n a' @ p @ b" using n by simp
        then show ?thesis using 1 2 3 Cons by simp
      qed
    qed
  qed
qed

lemma cut_lit_pair: "c \<noteq> d \<Longrightarrow> cut (lit [e, d]) (c # z)"
  unfolding cut_def
proof (intro conjI allI impI)
  fix x y :: string
  assume c: "c \<noteq> d" and x: "x \<noteq> []"
  then obtain b r where xb: "x = b # r" by (cases x) auto
  show "lit [e, d] (x @ (c # z) @ y) = lit [e, d] x"
    using c unfolding xb by (cases r) (simp_all add: lit_def)
next
  fix x :: string and k
  assume "lit [e, d] x = Some k"
  then have t: "take (Suc (Suc 0)) x = [e, d]" and k: "k = Suc (Suc 0)"
    by (auto simp: lit_def split: if_splits)
  from t have "length (take (Suc (Suc 0)) x) = Suc (Suc 0)" by simp
  then show "k \<le> length x" using k by simp
qed

lemma cut_unicode_escape: "\<not> is_hex c \<Longrightarrow> c \<noteq> u \<Longrightarrow> cut (unicode_escape u n) (c # z)"
  unfolding cut_def
proof (intro conjI allI impI)
  fix x y :: string
  assume h: "\<not> is_hex c" and c: "c \<noteq> u" and x: "x \<noteq> []"
  then obtain b r where xb: "x = b # r" by (cases x) auto
  show "unicode_escape u n (x @ (c # z) @ y) = unicode_escape u n x"
  proof (cases r)
    case Nil
    then show ?thesis using c xb by (simp add: unicode_escape_def)
  next
    case (Cons c' r')
    have "(n \<le> length (r' @ c # z @ y) \<and> list_all is_hex (take n (r' @ c # z @ y)))
        = (n \<le> length r' \<and> list_all is_hex (take n r'))"
    proof (cases "n \<le> length r'")
      case True
      then show ?thesis by simp
    next
      case False
      then have "c \<in> set (take n (r' @ c # z @ y))"
        by (cases "n - length r'") simp_all
      then have "\<not> list_all is_hex (take n (r' @ c # z @ y))"
        using h by (auto simp: list_all_iff)
      then show ?thesis using False by simp
    qed
    then show ?thesis using xb Cons by (simp add: unicode_escape_def)
  qed
next
  fix x :: string and k
  assume "unicode_escape u n x = Some k"
  then show "k \<le> length x"
    by (auto simp: unicode_escape_def split: list.splits if_splits)
qed

lemma backslash_not_hex: "\<not> is_hex backslash"
  using hex_not_backslash by blast

lemma space_not_hex: "is_space c \<Longrightarrow> \<not> is_hex c"
  by (auto simp: is_space_def is_hex_def)

lemma space_chars:
  assumes "is_space c"
  shows "c \<noteq> backslash" "c \<noteq> dquote" "c \<noteq> squote" "c \<noteq> dollar"
    "c \<noteq> CHR ''n''" "c \<noteq> CHR ''t''" "c \<noteq> CHR ''r''" "c \<noteq> CHR ''u''" "c \<noteq> CHR ''U''"
  using assms by (auto simp: is_space_def backslash_def dquote_def squote_def dollar_def)

lemma lit_pair_other:
  assumes "c \<noteq> d" and "c \<noteq> backslash" and "d \<noteq> backslash"
  shows "re_sub (lit [backslash, d]) repl (a @ backslash # c # b)
       = re_sub (lit [backslash, d]) repl a @ backslash # c # re_sub (lit [backslash, d]) repl b"
proof -
  have 1: "re_sub (lit [backslash, d]) repl (backslash # c # b)
      = backslash # c # re_sub (lit [backslash, d]) repl b"
    using assms by (simp add: re_sub_escape_pair re_sub_skip begins_with_lit)
  have "cut (lit [backslash, d]) [backslash, c]" using assms(3) by (intro cut_lit_pair) simp
  then show ?thesis
    using re_sub_cut[of "lit [backslash, d]" "[backslash, c]" repl a b] 1 by simp
qed

lemma lit_pair_same:
  assumes "d \<noteq> backslash"
  shows "re_sub (lit [backslash, d]) repl (a @ backslash # d # b)
       = re_sub (lit [backslash, d]) repl a @ repl @ re_sub (lit [backslash, d]) repl b"
proof -
  have 1: "re_sub (lit [backslash, d]) repl (backslash # d # b)
      = repl @ re_sub (lit [backslash, d]) repl b"
    by (simp add: re_sub_escape_pair)
  have "cut (lit [backslash, d]) [backslash, d]" using assms by (intro cut_lit_pair) simp
  then show ?thesis
    using re_sub_cut[of "lit [backslash, d]" "[backslash, d]" repl a b] 1 by simp
qed

lemma unicode_pair_other:
  assumes "c \<noteq> u" and "c \<noteq> backslash" and "u \<noteq> backslash"
  shows "re_sub (unicode_escape u n) repl (a @ backslash # c # b)
       = re_sub (unicode_escape u n) repl a @ backslash # c # re_sub (unicode_escape u n) repl b"
proof -
  have 1: "re_sub (unicode_escape u n) repl (backslash # c # b)
      = backslash # c # re_sub (unicode_escape u n) repl b"
    using assms by (simp add: re_sub_unicode_escape re_sub_skip begins_with_unicode_escape)
  have "cut (unicode_escape u n) [backslash, c]"
    using backslash_not_hex assms(3) by (intro cut_unicode_escape) auto
  then show ?thesis
    using re_sub_cut[of "unicode_escape u n" "[backslash, c]" repl a b] 1 by simp
qed

lemma re_sub_blank:
  assumes "cut m w" and "begins_with backslash m" and "backslash \<notin> set w"
  shows "re_sub m repl (a @ w @ b) = re_sub m repl a @ w @ re_sub m repl b"
  using re_sub_cut[OF assms(1), of repl a b] re_sub_prefix[OF assms(2,3), of repl b] by simp

lemma lit_pair_blank:
  assumes "w \<noteq> []" and "\<forall>x\<in>set w. is_space x" and "\<not> is_space d"
  shows "re_sub (lit [backslash, d]) repl (a @ w @ b)
       = re_sub (lit [backslash, d]) repl a @ w @ re_sub (lit [backslash, d]) repl b"
proof -
  obtain c z where w: "w = c # z" using assms(1) by (cases w) auto
  then have "is_space c" using assms(2) by simp
  then have "c \<noteq> d" using assms(3) by auto
  then have "cut (lit [backslash, d]) w" unfolding w by (rule cut_lit_pair)
  moreover have "backslash \<notin> set w" using assms(2) space_chars(1) by blast
  ultimately show ?thesis using begins_with_lit by (intro re_sub_blank) auto
qed

lemma unicode_blank:
  assumes "w \<noteq> []" and "\<forall>x\<in>set w. is_space x" and "\<not> is_space u"
  shows "re_sub (unicode_escape u n) repl (a @ w @ b)
       = re_sub (unicode_escape u n) repl a @ w @ re_sub (unicode_escape u n) repl b"
proof -
  obtain c z where w: "w = c # z" using assms(1) by (cases w) auto
  then have c: "is_space c" using assms(2) by simp
  then have "c \<noteq> u" using assms(3) by auto
  then have "cut (unicode_escape u n) w" unfolding w using space_not_hex[OF c] by (intro cut_unicode_escape)
  moreover have "backslash \<notin> set w" using assms(2) space_chars(1) by blast
  ultimately show ?thesis using begins_with_unicode_escape by (intro re_sub_blank) auto
qed

lemma not_space_chars:
  "\<not> is_space backslash" "\<not> is_space dquote" "\<not> is_space squote" "\<not> is_space dollar"
  "\<not> is_space CHR ''n''" "\<not> is_space CHR ''t''" "\<not> is_space CHR ''r''"
  "\<not> is_space CHR ''u''" "\<not> is_space CHR ''U''"
  using space_chars by blast+

lemma escapes_replaced_blank:
  assumes "w \<noteq> []" and "\<forall>x\<in>set w. is_space x"
  shows "escapes_replaced (a @ w @ b) = escapes_replaced a @ w @ escapes_replaced b"
  by (simp add: escapes_replaced_def Let_def lit_pair_blank[OF assms] unicode_blank[OF assms]
      not_space_chars)

lemma is_space_space: "is_space CHR '' ''"
  by (simp add: is_space_def)

lemma escapes_replaced_space:
  "escapes_replaced (a @ CHR '' '' # b) = escapes_replaced a @ CHR '' '' # escapes_replaced b"
  using escapes_replaced_blank[of "'' ''" a b] by (simp add: is_space_space)

lemma escapes_replaced_marker:
  assumes "c \<in> {CHR ''n'', CHR ''t'', CHR ''r''}"
  shows "escapes_replaced (a @ backslash # c # b) = escapes_replaced a @ CHR '' '' # escapes_replaced b"
proof -
  have sp: "re_sub (lit [backslash, d]) repl (x @ CHR '' '' # y)
       = re_sub (lit [backslash, d]) repl x @ CHR '' '' # re_sub (lit [backslash, d]) repl y"
    if "\<not> is_space d" for d repl x y
    using lit_pair_blank[of "'' ''" d repl x y] that by (simp add: is_space_space)
  have c: "c = CHR ''n'' \<or> c = CHR ''t'' \<or> c = CHR ''r''" using assms by simp
  have ne: "CHR ''t'' \<noteq> CHR ''n''" "CHR ''r'' \<noteq> CHR ''n''" "CHR ''r'' \<noteq> CHR ''t''"
    "CHR ''n'' \<noteq> CHR ''u''" "CHR ''t'' \<noteq> CHR ''u''" "CHR ''r'' \<noteq> CHR ''u''"
    "CHR ''n'' \<noteq> CHR ''U''" "CHR ''t'' \<noteq> CHR ''U''" "CHR ''r'' \<noteq> CHR ''U''"
    by simp_all
  from c show ?thesis
  proof (elim disjE)
    assume "c = CHR ''n''"
    then show ?thesis
      by (simp add: escapes_replaced_def Let_def unicode_pair_other lit_pair_same sp
          marker_chars not_space_chars ne)
  next
    assume "c = CHR ''t''"
    then show ?thesis
      by (simp add: escapes_replaced_def Let_def unicode_pair_other lit_pair_other lit_pair_same sp
          marker_chars not_space_chars ne)
  next
    assume "c = CHR ''r''"
    then show ?thesis
      by (simp add: escapes_replaced_def Let_def unicode_pair_other lit_pair_other lit_pair_same sp
          marker_chars not_space_chars ne)
  qed
qed

lemma clean_marker:
  "c \<in> {CHR ''n'', CHR ''t'', CHR ''r''} \<Longrightarrow>
   clean_escape_characters (a @ backslash # c # b) = clean_escape_characters (a @ CHR '' '' # b)"
  by (rule clean_via_escapes) (simp only: escapes_replaced_marker escapes_replaced_space)

lemma ws_blank:
  assumes "w \<noteq> []" and "\<forall>x\<in>set w. is_space x"
  shows "re_sub ws_run '' '' (a @ w @ b) = re_sub ws_run '' '' (a @ CHR '' '' # b)"
proof (induction "length a" arbitrary: a rule: less_induct)
  case less
  obtain c z where w: "w = c # z" using assms(1) by (cases w) auto
  have c: "is_space c" and z: "\<And>x. x \<in> set z \<Longrightarrow> is_space x" using assms(2) w by simp_all
  have wb: "dropWhile is_space (w @ b) = dropWhile is_space b"
    using assms(2) by (intro dropWhile_append2) simp
  show ?case
  proof (cases a)
    case Nil
    have "dropWhile is_space (z @ b) = dropWhile is_space b" using z by (rule dropWhile_append2)
    then show ?thesis using Nil w c by (simp add: re_sub_ws_run_Cons is_space_space)
  next
    case (Cons d a')
    show ?thesis
    proof (cases "is_space d")
      case False
      have "re_sub ws_run '' '' (a' @ w @ b) = re_sub ws_run '' '' (a' @ CHR '' '' # b)"
        using less.hyps[of a'] Cons by simp
      then show ?thesis using False Cons by (simp add: re_sub_ws_run_Cons)
    next
      case True
      have "re_sub ws_run '' '' (dropWhile is_space (a' @ w @ b))
          = re_sub ws_run '' '' (dropWhile is_space (a' @ CHR '' '' # b))"
      proof (cases "\<forall>x\<in>set a'. is_space x")
        case True
        then have "dropWhile is_space (a' @ w @ b) = dropWhile is_space (w @ b)"
          by (intro dropWhile_append2) simp
        moreover have "dropWhile is_space (a' @ CHR '' '' # b) = dropWhile is_space (CHR '' '' # b)"
          using True by (intro dropWhile_append2) simp
        ultimately show ?thesis using wb by (simp add: is_space_space)
      next
        case False
        then obtain x where x: "x \<in> set a'" "\<not> is_space x" by blast
        have 1: "dropWhile is_space (a' @ w @ b) = dropWhile is_space a' @ w @ b"
          using x by (rule dropWhile_append1)
        have 2: "dropWhile is_space (a' @ CHR '' '' # b) = dropWhile is_space a' @ CHR '' '' # b"
          using x by (rule dropWhile_append1)
        have "length (dropWhile is_space a') \<le> length a'" by (rule length_dropWhile_le)
        then have "length (dropWhile is_space a') < length a" using Cons by simp
        then show ?thesis unfolding 1 2 by (rule less.hyps)
      qed
      then show ?thesis using True Cons by (simp add: re_sub_ws_run_Cons)
    qed
  qed
qed

lemma clean_blank:
  assumes "w \<noteq> []" and "\<forall>x\<in>set w. is_space x"
  shows "clean_escape_characters (a @ w @ b) = clean_escape_characters (a @ CHR '' '' # b)"
proof -
  let ?f = "\<lambda>s. filter (\<lambda>x. x \<noteq> dquote) (filter (\<lambda>x. x \<noteq> backslash) s)"
  have "\<forall>x\<in>set w. x \<noteq> backslash \<and> x \<noteq> dquote" using assms(2) space_chars(1,2) by blast
  then have fw: "?f w = w" by (simp add: filter_id_conv)
  have 1: "?f (escapes_replaced (a @ w @ b)) = ?f (escapes_replaced a) @ w @ ?f (escapes_replaced b)"
    using fw by (simp add: escapes_replaced_blank[OF assms])
  have 2: "?f (escapes_replaced (a @ CHR '' '' # b))
      = ?f (escapes_replaced a) @ CHR '' '' # ?f (escapes_replaced b)"
    by (simp add: escapes_replaced_space backslash_def dquote_def)
  show ?thesis unfolding clean_eq 1 2 by (simp only: ws_blank[OF assms])
qed

lemma escapes_replaced_dollar:
  "escapes_replaced (backslash # dollar # b) = dollar # escapes_replaced b"
  by (simp add: marker_simps)

lemma clean_empty: "clean_escape_characters [] = []"
  by (simp add: clean_escape_characters_def py_strip_def)

lemma clean_unicode_u:
  assumes "backslash \<notin> set a" and "length h = 4 \<and> list_all is_hex h"
  shows "clean_escape_characters (a @ backslash # CHR ''u'' # h @ b) = clean_escape_characters (a @ b)"
  using clean_after_prefix[OF assms(1), of "backslash # CHR ''u'' # h @ b" "[]" b] assms(2)
  by (simp add: escapes_replaced_u)

lemma clean_unicode_U:
  assumes "backslash \<notin> set a" and "length h = 8 \<and> list_all is_hex h"
  shows "clean_escape_characters (a @ backslash # CHR ''U'' # h @ b) = clean_escape_characters (a @ b)"
  using clean_after_prefix[OF assms(1), of "backslash # CHR ''U'' # h @ b" "[]" b] assms(2)
  by (simp add: escapes_replaced_U)

lemma clean_escaped_dquote:
  assumes "backslash \<notin> set a"
  shows "clean_escape_characters (a @ backslash # dquote # b) = clean_escape_characters (a @ b)"
  using clean_after_prefix[OF assms, of "backslash # dquote # b" "[]" b]
  by (simp add: escapes_replaced_dquote)

lemma clean_escaped_squote:
  assumes "backslash \<notin> set a"
  shows "clean_escape_characters (a @ backslash # squote # b) = clean_escape_characters (a @ squote # b)"
  using clean_after_prefix[OF assms, of "backslash # squote # b" "[squote]" b]
  by (simp add: escapes_replaced_squote marker_chars marker_chars[symmetric])

lemma clean_escaped_dollar:
  assumes "backslash \<notin> set a"
  shows "clean_escape_characters (a @ backslash # dollar # b) = clean_escape_characters (a @ dollar # b)"
  using clean_after_prefix[OF assms, of "backslash # dollar # b" "[dollar]" b]
  by (simp add: escapes_replaced_dollar marker_chars marker_chars[symmetric])

text \<open>
  Each substitution works on the text left by the one before it, so text that a backslash
  precedes can be read differently from the same text standing alone: after two
  backslashes, an escaped double quote followed by \<open>n\<close> leaves the \<open>n\<close>, although a
  backslash followed by \<open>n\<close> is a newline marker.
\<close>

lemma clean_escape_after_backslash:
  "clean_escape_characters ([backslash] @ [backslash, dquote] @ ''n'') = ''n''
   \<and> clean_escape_characters ([backslash] @ ''n'') = []"
  by code_simp

text \<open>
  Claim C9, amended. For every input the Text Sanitizer returns the sanitized text: the
  unicode escapes \<open>\uXXXX\<close>, then \<open>\UXXXXXXXX\<close>, are removed, the markers \<open>\n\<close>, \<open>\t\<close>,
  \<open>\r\<close> are replaced by a space, an escaped double quote is removed, an escaped single
  quote and an escaped dollar sign are replaced by the quote and the dollar sign alone,
  every remaining backslash and every double quote is removed, each step on the result of
  the one before, and the words of the result are joined by single spaces. The function is
  total and has no error result; the empty text is mapped to itself. Hence the result has
  no backslash and no double quote, its whitespace is collapsed to single spaces, and it
  neither starts nor ends with whitespace. Anywhere in a text a marker \<open>\n\<close>, \<open>\t\<close>, \<open>\r\<close>
  acts as a space, and a non-empty run of whitespace acts as one space. Where no backslash
  precedes them, a unicode escape, an escaped double quote and a double quote act as if
  absent, and an escaped single quote or dollar sign acts as the character alone.
\<close>

theorem clean_escape_characters_passes:
  "clean_escape_characters s = sanitized s
   \<and> clean_escape_characters [] = []
   \<and> backslash \<notin> set (clean_escape_characters s)
   \<and> dquote \<notin> set (clean_escape_characters s)
   \<and> collapsed (clean_escape_characters s)
   \<and> (clean_escape_characters s \<noteq> [] \<longrightarrow>
        \<not> is_space (hd (clean_escape_characters s)) \<and> \<not> is_space (last (clean_escape_characters s)))
   \<and> (c \<in> {CHR ''n'', CHR ''t'', CHR ''r''} \<longrightarrow>
        clean_escape_characters (p @ backslash # c # b) = clean_escape_characters (p @ CHR '' '' # b))
   \<and> (w \<noteq> [] \<and> list_all is_space w \<longrightarrow>
        clean_escape_characters (p @ w @ b) = clean_escape_characters (p @ CHR '' '' # b))
   \<and> (backslash \<notin> set a \<longrightarrow>
        (length h4 = 4 \<and> list_all is_hex h4 \<longrightarrow>
           clean_escape_characters (a @ backslash # CHR ''u'' # h4 @ b) = clean_escape_characters (a @ b))
      \<and> (length h8 = 8 \<and> list_all is_hex h8 \<longrightarrow>
           clean_escape_characters (a @ backslash # CHR ''U'' # h8 @ b) = clean_escape_characters (a @ b))
      \<and> clean_escape_characters (a @ backslash # dquote # b) = clean_escape_characters (a @ b)
      \<and> clean_escape_characters (a @ dquote # b) = clean_escape_characters (a @ b)
      \<and> clean_escape_characters (a @ backslash # squote # b) = clean_escape_characters (a @ squote # b)
      \<and> clean_escape_characters (a @ backslash # dollar # b) = clean_escape_characters (a @ dollar # b))"
proof (intro conjI impI)
  show "clean_escape_characters s = sanitized s" by (rule clean_sanitized)
  show "clean_escape_characters [] = []" by (rule clean_empty)
  show "backslash \<notin> set (clean_escape_characters s)" by (rule clean_no_backslash)
  show "dquote \<notin> set (clean_escape_characters s)" by (rule clean_no_dquote)
  show "collapsed (clean_escape_characters s)" by (rule clean_collapsed)
next
  assume "clean_escape_characters s \<noteq> []"
  then show "\<not> is_space (hd (clean_escape_characters s))"
    and "\<not> is_space (last (clean_escape_characters s))"
    using clean_ends[of s] by simp_all
next
  assume "c \<in> {CHR ''n'', CHR ''t'', CHR ''r''}"
  then show "clean_escape_characters (p @ backslash # c # b) = clean_escape_characters (p @ CHR '' '' # b)"
    by (rule clean_marker)
next
  assume "w \<noteq> [] \<and> list_all is_space w"
  then show "clean_escape_characters (p @ w @ b) = clean_escape_characters (p @ CHR '' '' # b)"
    by (intro clean_blank) (simp_all add: list_all_iff)
next
  assume a: "backslash \<notin> set a"
  show "clean_escape_characters (a @ backslash # dquote # b) = clean_escape_characters (a @ b)"
    using a by (rule clean_escaped_dquote)
  show "clean_escape_characters (a @ dquote # b) = clean_escape_characters (a @ b)"
    using a by (rule clean_dquote_removed)
  show "clean_escape_characters (a @ backslash # squote # b) = clean_escape_characters (a @ squote # b)"
    using a by (rule clean_escaped_squote)
  show "clean_escape_characters (a @ backslash # dollar # b) = clean_escape_characters (a @ dollar # b)"
    using a by (rule clean_escaped_dollar)
  {
    assume "length h4 = 4 \<and> list_all is_hex h4"
    with a show "clean_escape_characters (a @ backslash # CHR ''u'' # h4 @ b) = clean_escape_characters (a @ b)"
      by (rule clean_unicode_u)
  }
  {
    assume "length h8 = 8 \<and> list_all is_hex h8"
    with a show "clean_escape_characters (a @ backslash # CHR ''U'' # h8 @ b) = clean_escape_characters (a @ b)"
      by (rule clean_unicode_U)
  }
qed

theorem clean_escape_characters_passes_witness:
  "clean_escape_characters (''  x'' @ [backslash, CHR ''n'', CHR 0x09] @ ''  y '' @ [backslash, squote] @ ''s '')
     = ''x y '' @ [squote] @ ''s''
   \<and> sanitized (''  x'' @ [backslash, CHR ''n'', CHR 0x09] @ ''  y '' @ [backslash, squote] @ ''s '')
     = ''x y '' @ [squote] @ ''s''
   \<and> \<not> is_space (hd (clean_escape_characters
         (''  x'' @ [backslash, CHR ''n'', CHR 0x09] @ ''  y '' @ [backslash, squote] @ ''s '')))
   \<and> \<not> is_space (last (clean_escape_characters
         (''  x'' @ [backslash, CHR ''n'', CHR 0x09] @ ''  y '' @ [backslash, squote] @ ''s '')))
   \<and> CHR ''n'' \<in> {CHR ''n'', CHR ''t'', CHR ''r''}
   \<and> [CHR 0x09, CHR '' ''] \<noteq> [] \<and> list_all is_space [CHR 0x09, CHR '' '']
   \<and> backslash \<notin> set ''ab''
   \<and> length ''1a2B'' = 4 \<and> list_all is_hex ''1a2B''
   \<and> length ''0123abCD'' = 8 \<and> list_all is_hex ''0123abCD''
   \<and> clean_escape_characters ([backslash] @ backslash # CHR ''n'' # ''cd'')
       = clean_escape_characters ([backslash] @ CHR '' '' # ''cd'')
   \<and> clean_escape_characters ([backslash] @ [CHR 0x09, CHR '' ''] @ ''cd'')
       = clean_escape_characters ([backslash] @ CHR '' '' # ''cd'')
   \<and> clean_escape_characters (''ab'' @ backslash # CHR ''u'' # ''1a2B'' @ ''cd'')
       = clean_escape_characters (''ab'' @ ''cd'')
   \<and> clean_escape_characters (''ab'' @ backslash # CHR ''U'' # ''0123abCD'' @ ''cd'')
       = clean_escape_characters (''ab'' @ ''cd'')
   \<and> clean_escape_characters (''ab'' @ backslash # dquote # ''cd'')
       = clean_escape_characters (''ab'' @ ''cd'')"
proof -
  let ?s = "''  x'' @ [backslash, CHR ''n'', CHR 0x09] @ ''  y '' @ [backslash, squote] @ ''s ''"
  have v: "clean_escape_characters ?s = ''x y '' @ [squote] @ ''s''" by code_simp
  then have h0: "clean_escape_characters ?s \<noteq> []" by simp
  have h1: "CHR ''n'' \<in> {CHR ''n'', CHR ''t'', CHR ''r''}" by simp
  have h2: "[CHR 0x09, CHR '' ''] \<noteq> [] \<and> list_all is_space [CHR 0x09, CHR '' '']"
    by (simp add: is_space_def)
  have h3: "backslash \<notin> set ''ab''" by (simp add: backslash_def)
  have h4: "length ''1a2B'' = 4 \<and> list_all is_hex ''1a2B''" by (simp add: is_hex_def)
  have h5: "length ''0123abCD'' = 8 \<and> list_all is_hex ''0123abCD''" by (simp add: is_hex_def)
  note t = clean_escape_characters_passes
      [where s = ?s and c = "CHR ''n''" and p = "[backslash]" and b = "''cd''"
         and w = "[CHR 0x09, CHR '' '']" and a = "''ab''" and ?h4.0 = "''1a2B''" and ?h8.0 = "''0123abCD''"]
  have s: "sanitized ?s = ''x y '' @ [squote] @ ''s''"
    using t[THEN conjunct1] v by simp
  show ?thesis
    using t h0 h1 h2 h3 h4 h5 v s by blast
qed

text \<open>
  The claim as stated fails for an escaped single quote, which is not stripped: the
  backslash is removed and the quote is kept.
\<close>

theorem clean_escape_characters_keeps_escaped_single_quote:
  "clean_escape_characters (''it'' @ [backslash, squote] @ ''s'') = ''it'' @ [squote] @ ''s''"
  by code_simp

section \<open>Properties of the Merger\<close>

lemma merge_results_files:
  "raw_results_file (merge_results w) = raw_results_file w"
  "comments_file (merge_results w) = comments_file w"
  "invoked (merge_results w) = invoked w"
  by (simp_all add: merge_results_def log_to_def split: option.split prod.split)

lemma merge_results_logs:
  "\<exists>lg. logged (merge_results w) = logged w @ lg @ [(ERROR, FailedToMerge)]
      \<or> logged (merge_results w) = logged w @ lg @ [(INFO, ResultsMerged)]"
proof (cases "raw_results_file w")
  case None
  then have "logged (merge_results w) = logged w @ [] @ [(ERROR, FailedToMerge)]"
    by (simp add: merge_results_def log_to_def)
  then show ?thesis by blast
next
  case (Some all_results)
  show ?thesis
  proof (cases "py_iter all_results")
    case None
    then have "logged (merge_results w) = logged w @ [] @ [(ERROR, FailedToMerge)]"
      using Some by (simp add: merge_results_def log_to_def)
    then show ?thesis by blast
  next
    case entries: (Some entries)
    obtain lg r where m: "merge_entries entries initial_report = (lg, r)" by (cases "merge_entries entries initial_report")
    show ?thesis
    proof (cases r)
      case None
      then have "logged (merge_results w) = logged w @ lg @ [(ERROR, FailedToMerge)]"
        using Some entries m by (simp add: merge_results_def log_to_def)
      then show ?thesis by blast
    next
      case (Some final_results)
      then have "logged (merge_results w) = logged w @ lg @ [(INFO, ResultsMerged)]"
        using \<open>raw_results_file w = Some all_results\<close> entries m by (simp add: merge_results_def log_to_def)
      then show ?thesis by blast
    qed
  qed
qed

lemma merge_results_last:
  "last (logged (merge_results w)) = (ERROR, FailedToMerge) \<or> last (logged (merge_results w)) = (INFO, ResultsMerged)"
  using merge_results_logs[of w] by (metis append_assoc last_snoc)

lemma merge_results_final:
  "final_results_file (merge_results w) =
     (case raw_results_file w of
        None \<Rightarrow> final_results_file w
      | Some all_results \<Rightarrow>
          (case py_iter all_results of
             None \<Rightarrow> final_results_file w
           | Some entries \<Rightarrow>
               (case snd (merge_entries entries initial_report) of
                  None \<Rightarrow> final_results_file w
                | Some r \<Rightarrow> Some (report_json r))))"
  by (simp add: merge_results_def log_to_def split: option.split prod.split)

text \<open>
  Claim C8. Running the Merger a second time on the same Result Store leaves the same
  final report and the same store. The report it writes is built from the store alone,
  whatever the final results file held before.
\<close>

theorem merge_results_idempotent:
  "final_results_file (merge_results (merge_results w)) = final_results_file (merge_results w)
   \<and> raw_results_file (merge_results (merge_results w)) = raw_results_file w
   \<and> (raw_results_file w = Some (JList entries)
        \<and> merge_entries entries initial_report = (lg, Some r)
      \<longrightarrow> final_results_file (merge_results w) = Some (report_json r))"
proof -
  have 1: "final_results_file (merge_results (merge_results w)) = final_results_file (merge_results w)"
    unfolding merge_results_final[of "merge_results w"] merge_results_files
    by (simp add: merge_results_final split: option.split)
  have 2: "raw_results_file (merge_results (merge_results w)) = raw_results_file w"
    by (simp add: merge_results_files)
  have 3: "raw_results_file w = Some (JList entries)
        \<and> merge_entries entries initial_report = (lg, Some r)
      \<longrightarrow> final_results_file (merge_results w) = Some (report_json r)"
    by (simp add: merge_results_final)
  show ?thesis using 1 2 3 by blast
qed

theorem merge_results_idempotent_witness:
  "raw_results_file \<lparr>comments_file = Missing, raw_results_file = Some (JList [JObj [(''Praise'', JList [JStr ''p''])]]),
       final_results_file = Some (JStr ''old''), logged = [], invoked = ([] :: unit json list)\<rparr>
     = Some (JList [JObj [(''Praise'', JList [JStr ''p''])]])
   \<and> merge_entries [JObj [(''Praise'', JList [JStr ''p'' :: unit json])]] initial_report
     = ([], Some [(''Requests'', []), (''Complaints'', []), (''Suggestions'', []),
                  (''Praise'', [JStr ''p'']), (''Troubleshooting'', []), (''Other'', [])])
   \<and> final_results_file (merge_results \<lparr>comments_file = Missing,
       raw_results_file = Some (JList [JObj [(''Praise'', JList [JStr ''p''])]]),
       final_results_file = Some (JStr ''old''), logged = [], invoked = ([] :: unit json list)\<rparr>)
     = Some (JObj [(''Requests'', JList []), (''Complaints'', JList []), (''Suggestions'', JList []),
                   (''Praise'', JList [JStr ''p'']), (''Troubleshooting'', JList []), (''Other'', JList [])])"
proof -
  have e: "merge_entries [JObj [(''Praise'', JList [JStr ''p'' :: unit json])]] initial_report
     = ([], Some [(''Requests'', []), (''Complaints'', []), (''Suggestions'', []),
                  (''Praise'', [JStr ''p'']), (''Troubleshooting'', []), (''Other'', [])])"
    by (simp add: merge_item_def initial_report_def extend_key_def)
  show ?thesis
    using e merge_results_idempotent
      [of "\<lparr>comments_file = Missing,
           raw_results_file = Some (JList [JObj [(''Praise'', JList [JStr ''p''])]]),
           final_results_file = Some (JStr ''old''), logged = [], invoked = ([] :: unit json list)\<rparr>"
          "[JObj [(''Praise'', JList [JStr ''p''])]]" "[]"
          "[(''Requests'', []), (''Complaints'', []), (''Suggestions'', []),
            (''Praise'', [JStr ''p'']), (''Troubleshooting'', []), (''Other'', [])]"]
    by (auto simp: report_json_def)
qed




















lemma spec_report_example:
  "report_json (spec_report
         [JObj [(''Praise'', JList [JObj [(''comment'', JStr ''c1''), (''insight'', JStr ''i1'')]])],
          JObj [(''Weird'', JList [JObj [(''comment'', JStr ''c2''), (''insight'', JStr ''i2'')]])]])
     = (JObj [(''Requests'', JList []), (''Complaints'', JList []), (''Suggestions'', JList []),
              (''Praise'', JList [JObj [(''comment'', JStr ''c1''), (''insight'', JStr ''i1'')]]),
              (''Troubleshooting'', JList []),
              (''Other'', JList [JObj [(''comment'', JStr ''c2''), (''insight'', JStr ''i2'')]])] :: 'f json)"
  by (simp add: report_json_def spec_report_def themes_def contribution_def items_of_def
      spec_target_def elements_def)

text \<open>
  Claim C1. The claim asks that a value that is not a list, found in an entry of the Result
  Store, has its elements appended to Other. A number has no elements, and the Merger
  does not set it aside as it sets aside an entry that is not a mapping: for the store
  holding the single entry that maps Weird to 5, appending the value raises, the failure
  is logged and no final report is written.
\<close>

theorem merge_results_number_value:
  "merge_results \<lparr>comments_file = Missing,
       raw_results_file = Some (JList [JObj [(''Weird'', JInt 5)]]),
       final_results_file = None, logged = [], invoked = ([] :: unit json list)\<rparr>
   = \<lparr>comments_file = Missing,
       raw_results_file = Some (JList [JObj [(''Weird'', JInt 5)]]),
       final_results_file = None, logged = [(ERROR, FailedToMerge)], invoked = []\<rparr>"
  by (simp add: merge_results_def merge_item_def log_to_def)

section \<open>Properties of the Pipeline Driver\<close>

text \<open>
  Claim C6. When the comments file is missing or unreadable, the run ends with one logged
  error: no chunk is handed to the agent, the Result Store and the final results file are
  untouched, and the state reached is not one that the Merger returns.
\<close>

theorem run_source_unavailable:
  assumes "comments_file w = Missing \<or> comments_file w = Unreadable"
  shows "run kickoff loads dumpable w = log_to [(ERROR, AnErrorOccurred)] w
    \<and> invoked (run kickoff loads dumpable w) = invoked w
    \<and> raw_results_file (run kickoff loads dumpable w) = raw_results_file w
    \<and> final_results_file (run kickoff loads dumpable w) = final_results_file w
    \<and> (\<forall>w'. run kickoff loads dumpable w \<noteq> merge_results w')"
proof -
  have r: "run kickoff loads dumpable w = log_to [(ERROR, AnErrorOccurred)] w"
    using assms by (auto simp: run_def)
  have "run kickoff loads dumpable w \<noteq> merge_results w'" for w'
  proof
    assume "run kickoff loads dumpable w = merge_results w'"
    then have "merge_results w' = log_to [(ERROR, AnErrorOccurred)] w" using r by simp
    then have "last (logged (merge_results w')) = (ERROR, AnErrorOccurred)"
      by (simp add: log_to_def)
    then show False using merge_results_last[of w'] by simp
  qed
  then show ?thesis using r by (simp add: log_to_def)
qed

theorem run_source_unavailable_witness:
  "comments_file \<lparr>comments_file = Missing, raw_results_file = Some (JList []),
      final_results_file = None, logged = [], invoked = ([] :: unit json list)\<rparr> = Missing
   \<and> run (\<lambda>i c. Some ''{}'') (\<lambda>s. Value (JObj [])) (\<lambda>v. True)
        \<lparr>comments_file = Missing, raw_results_file = Some (JList []),
         final_results_file = None, logged = [], invoked = ([] :: unit json list)\<rparr>
     = \<lparr>comments_file = Missing, raw_results_file = Some (JList []),
         final_results_file = None, logged = [(ERROR, AnErrorOccurred)], invoked = []\<rparr>"
  using run_source_unavailable
    [of "\<lparr>comments_file = Missing, raw_results_file = Some (JList []),
         final_results_file = None, logged = [], invoked = ([] :: unit json list)\<rparr>"
        "\<lambda>i c. Some ''{}''" "\<lambda>s. Value (JObj [])" "\<lambda>v. True"]
  by (simp add: log_to_def)

lemma py_range_empty: "py_range 0 0 20 = []"
  by (subst py_range.simps) simp

text \<open>
  Claim C5. For an empty list of comments the Batcher produces no chunk, the agent is not
  invoked, the Result Store is the empty list it was reset to, and the final report has
  the six themes, each with an empty list.
\<close>

theorem analyse_empty_source:
  fixes w :: "'f world"
  assumes "comments_file w = Readable (JList [])"
  shows "split_comments ([] :: 'f json list) 20 = Some []
    \<and> invoked (analyse kickoff loads dumpable w) = invoked w
    \<and> raw_results_file (analyse kickoff loads dumpable w) = Some (JList [])
    \<and> final_results_file (analyse kickoff loads dumpable w) =
        Some (JObj [(''Requests'', JList []), (''Complaints'', JList []),
                    (''Suggestions'', JList []), (''Praise'', JList []),
                    (''Troubleshooting'', JList []), (''Other'', JList [])])"
proof -
  have s: "split_comments ([] :: 'f json list) 20 = Some []"
    by (simp add: split_comments_def py_range_empty)
  let ?w1 = "log_to [(INFO, LoadedComments (JList []))] (initialize_results_file w)"
  have r: "analyse kickoff loads dumpable w = merge_results ?w1"
    using assms s
    by (simp add: analyse_def run_def split_value_def first_five_def
        initialize_results_file_def log_to_def)
  have raw: "raw_results_file ?w1 = Some (JList [])"
    by (simp add: initialize_results_file_def log_to_def)
  have inv: "invoked ?w1 = invoked w"
    by (simp add: initialize_results_file_def log_to_def)
  have "final_results_file (merge_results ?w1) = Some (report_json initial_report)"
    unfolding merge_results_final raw by simp
  then show ?thesis
    using s r raw inv
    by (simp add: merge_results_files report_json_def initial_report_def)
qed

theorem analyse_empty_source_witness:
  "comments_file \<lparr>comments_file = Readable (JList []), raw_results_file = None,
      final_results_file = None, logged = [], invoked = ([] :: unit json list)\<rparr>
     = Readable (JList [])
   \<and> final_results_file (analyse (\<lambda>i c. None) (\<lambda>s. DecodeError) (\<lambda>v. True)
        \<lparr>comments_file = Readable (JList []), raw_results_file = None,
         final_results_file = None, logged = [], invoked = ([] :: unit json list)\<rparr>)
     = Some (JObj [(''Requests'', JList []), (''Complaints'', JList []),
                   (''Suggestions'', JList []), (''Praise'', JList []),
                   (''Troubleshooting'', JList []), (''Other'', JList [])])"
  using analyse_empty_source
    [of "\<lparr>comments_file = Readable (JList []), raw_results_file = None,
         final_results_file = None, logged = [], invoked = ([] :: unit json list)\<rparr>"
        "\<lambda>i c. None" "\<lambda>s. DecodeError" "\<lambda>v. True"]
  by simp


















end
